theory Spec2Isabelle
  imports Complex_Main "HOL-Library.Signed_Division" "HOL-Library.Multiset"
begin

section \<open>Integer vectors, rotations and faults\<close>

text \<open>
  The parametrizer works on integer 2-vectors (\<open>Vector2i\<close>) and on C++ \<open>int\<close> values.
  C++ \<open>/\<close> and \<open>%\<close> truncate towards zero: they are \<open>sdiv\<close> and \<open>smod\<close>.
  Every way in which the C++ code leaves its normal control flow is a value of
  \<open>fault\<close>: an index outside a container (undefined behaviour in C++), a recursion that
  never ends, and \<open>exit(status)\<close> together with the last diagnostic printed before it.
\<close>

type_synonym vec2 = "int \<times> int"

datatype fault = OutOfRange | Diverges | ProcessExit string int

definition rot90 :: "vec2 \<Rightarrow> vec2" where
  "rot90 v = (- snd v, fst v)"

text \<open>
  Modelled from the spec: \<open>rshift90\<close> is declared in field-math.hpp, which is not among
  the sources. The glossary says: rotate the integer 2-vector v by r times 90 degrees
  counter-clockwise.
\<close>

definition rshift90 :: "vec2 \<Rightarrow> int \<Rightarrow> vec2" where
  "rshift90 v r =
     (let k = r mod 4 in
      if k = 0 then v
      else if k = 1 then rot90 v
      else if k = 2 then rot90 (rot90 v)
      else rot90 (rot90 (rot90 v)))"

section \<open>The edge union-find with rotation labels\<close>

text \<open>
  \<open>parent_edge\<close> is a \<open>std::vector<std::pair<int,int>>\<close>: entry j holds the parent of
  edge j and the rotation that leads from j to that parent. Parents are indices and are
  kept as naturals; the labels are C++ ints.

  \<open>get_parents\<close> recurses along the parent pointers and compresses the path on the way
  back. On a cyclic array the C++ recursion never returns; the model counts the calls
  and reports \<open>Diverges\<close> after more calls than the array has entries, which only a
  cycle can cause.
\<close>

type_synonym parents = "(nat \<times> int) list"

fun get_parents_fuel :: "nat \<Rightarrow> parents \<Rightarrow> nat \<Rightarrow> fault + (nat \<times> parents)" where
  "get_parents_fuel 0 ps j = Inl Diverges"
| "get_parents_fuel (Suc n) ps j =
     (if length ps \<le> j then Inl OutOfRange
      else if j = fst (ps ! j) then Inr (j, ps)
      else case get_parents_fuel n ps (fst (ps ! j)) of
             Inl e \<Rightarrow> Inl e
           | Inr (k, ps1) \<Rightarrow>
               if length ps1 \<le> j \<or> length ps1 \<le> fst (ps1 ! j) then Inl OutOfRange
               else Inr (k, ps1[j := (k, (snd (ps1 ! j) + snd (ps1 ! fst (ps1 ! j))) smod 4)]))"

definition get_parents :: "parents \<Rightarrow> nat \<Rightarrow> fault + (nat \<times> parents)" where
  "get_parents ps j = get_parents_fuel (Suc (length ps)) ps j"

fun get_parents_orient_fuel :: "nat \<Rightarrow> parents \<Rightarrow> nat \<Rightarrow> fault + int" where
  "get_parents_orient_fuel 0 ps j = Inl Diverges"
| "get_parents_orient_fuel (Suc n) ps j =
     (if length ps \<le> j then Inl OutOfRange
      else if j = fst (ps ! j) then Inr (snd (ps ! j))
      else case get_parents_orient_fuel n ps (fst (ps ! j)) of
             Inl e \<Rightarrow> Inl e
           | Inr t \<Rightarrow> Inr ((snd (ps ! j) + t) smod 4))"

definition get_parents_orient :: "parents \<Rightarrow> nat \<Rightarrow> fault + int" where
  "get_parents_orient ps j = get_parents_orient_fuel (Suc (length ps)) ps j"

text \<open>
  A well-formed forest, as \<open>FixFlipAdvance\<close> builds and keeps it: every index reaches a
  root by following parents (so parents are in range and there is no cycle), and a
  root carries the label 0 (\<open>parent_edge[i] = make_pair(i, 0)\<close> initially; a merge
  only relabels the root that becomes a child).
\<close>

fun reaches_root :: "nat \<Rightarrow> parents \<Rightarrow> nat \<Rightarrow> bool" where
  "reaches_root 0 ps j = False"
| "reaches_root (Suc n) ps j =
     (j < length ps \<and> (fst (ps ! j) = j \<or> reaches_root n ps (fst (ps ! j))))"

definition wf_parents :: "parents \<Rightarrow> bool" where
  "wf_parents ps =
     list_all (\<lambda>j. reaches_root (length ps) ps j \<and> (fst (ps ! j) = j \<longrightarrow> snd (ps ! j) = 0))
       [0..<length ps]"

section \<open>Merging two edge classes during collapse\<close>




subsection \<open>Paths of the forest\<close>

text \<open>
  \<open>walk ps d j r s\<close>: following the parents from j reaches the root r after d steps,
  and s is the plain sum of the labels met on the way, the root's own label included
  (as \<open>get_parents_orient\<close> adds them, before any reduction modulo 4).
  \<open>sem ps ps'\<close>: every index that reaches a root in ps reaches the same root in ps',
  in at most as many steps, with the same label sum modulo 4.
\<close>

inductive walk :: "parents \<Rightarrow> nat \<Rightarrow> nat \<Rightarrow> nat \<Rightarrow> int \<Rightarrow> bool" where
  walk_root: "j < length ps \<Longrightarrow> fst (ps ! j) = j \<Longrightarrow> walk ps 0 j j (snd (ps ! j))"
| walk_step: "j < length ps \<Longrightarrow> fst (ps ! j) \<noteq> j \<Longrightarrow> walk ps d (fst (ps ! j)) r s \<Longrightarrow>
              walk ps (Suc d) j r (snd (ps ! j) + s)"

definition rootzero :: "parents \<Rightarrow> bool" where
  "rootzero ps = (\<forall>j<length ps. fst (ps ! j) = j \<longrightarrow> snd (ps ! j) = 0)"

definition sem :: "parents \<Rightarrow> parents \<Rightarrow> bool" where
  "sem ps ps' = (length ps' = length ps \<and>
     (\<forall>k d r s. walk ps d k r s \<longrightarrow> (\<exists>d' s'. d' \<le> d \<and> walk ps' d' k r s' \<and> s' mod 4 = s mod 4)))"


text \<open>A chain 3 \<rightarrow> 2 \<rightarrow> 1 \<rightarrow> 0 with the rotations 3, 2 and 1.\<close>

definition chain4 :: parents where "chain4 = [(0, 0), (0, 1), (1, 2), (2, 3)]"

section \<open>Orientation singularities\<close>

text \<open>
  \<open>ComputeOrientationSingularities\<close> walks over the faces (the columns of \<open>F\<close>), sums
  the index differences of the three edges of each face and records the faces whose
  sum is 1 or 3 modulo 4; for such a face with a raw sum outside 0..3 it negates the
  column of \<open>Q\<close> at the face's first vertex, in place, so that later faces see the
  negated column.

  The matrices \<open>Q\<close> and \<open>N\<close> are stores from vertex ids to columns. The field
  function \<open>compat_orientation_extrinsic_index_4\<close> (field-math.hpp, floating point)
  is not among the sources: it is the parameter \<open>ci\<close>, and the negation of a column
  is the parameter \<open>neg\<close>. The map \<open>singularities\<close> is a \<open>std::map<int,int>\<close>.
\<close>

type_synonym face = "int \<times> int \<times> int"

definition face_vertex :: "face \<Rightarrow> int \<Rightarrow> int" where
  "face_vertex fc k = (case fc of (a, b, c) \<Rightarrow> if k = 0 then a else if k = 1 then b else c)"

text \<open>
  Modelled from the spec: \<open>modulo(index, 4)\<close> is a helper that is not among the
  sources; the spec calls it "the sum mod 4", a value in 0..3.
\<close>

definition modulo :: "int \<Rightarrow> int \<Rightarrow> int" where
  "modulo a b = a mod b"

definition edge_index_diff ::
  "('q \<Rightarrow> 'n \<Rightarrow> 'q \<Rightarrow> 'n \<Rightarrow> int \<times> int) \<Rightarrow> (int \<Rightarrow> 'q) \<Rightarrow> (int \<Rightarrow> 'n) \<Rightarrow> face \<Rightarrow> int \<Rightarrow> int" where
  "edge_index_diff ci Q N fc k =
     (let i = face_vertex fc k;
          j = face_vertex fc (if k = 2 then 0 else k + 1);
          v = ci (Q i) (N i) (Q j) (N j)
      in snd v - fst v)"

definition face_index ::
  "('q \<Rightarrow> 'n \<Rightarrow> 'q \<Rightarrow> 'n \<Rightarrow> int \<times> int) \<Rightarrow> (int \<Rightarrow> 'q) \<Rightarrow> (int \<Rightarrow> 'n) \<Rightarrow> face \<Rightarrow> int" where
  "face_index ci Q N fc =
     0 + edge_index_diff ci Q N fc 0 + edge_index_diff ci Q N fc 1 + edge_index_diff ci Q N fc 2"

definition singularity_step ::
  "('q \<Rightarrow> 'n \<Rightarrow> 'q \<Rightarrow> 'n \<Rightarrow> int \<times> int) \<Rightarrow> ('q \<Rightarrow> 'q) \<Rightarrow> (int \<Rightarrow> 'n) \<Rightarrow> int \<Rightarrow> face \<Rightarrow>
   (int \<Rightarrow> 'q) \<times> (int \<rightharpoonup> int) \<Rightarrow> (int \<Rightarrow> 'q) \<times> (int \<rightharpoonup> int)" where
  "singularity_step ci neg N f fc st =
     (case st of (Q, singularities) \<Rightarrow>
        let index = face_index ci Q N fc;
            index_mod = modulo index 4
        in if index_mod = 1 \<or> index_mod = 3
           then ((if index \<ge> 4 \<or> index < 0
                  then Q(face_vertex fc 0 := neg (Q (face_vertex fc 0))) else Q),
                 singularities(f \<mapsto> index_mod))
           else (Q, singularities))"

fun singularity_loop ::
  "('q \<Rightarrow> 'n \<Rightarrow> 'q \<Rightarrow> 'n \<Rightarrow> int \<times> int) \<Rightarrow> ('q \<Rightarrow> 'q) \<Rightarrow> (int \<Rightarrow> 'n) \<Rightarrow> int \<Rightarrow> face list \<Rightarrow>
   (int \<Rightarrow> 'q) \<times> (int \<rightharpoonup> int) \<Rightarrow> (int \<Rightarrow> 'q) \<times> (int \<rightharpoonup> int)" where
  "singularity_loop ci neg N f [] st = st"
| "singularity_loop ci neg N f (fc # fs) st =
     singularity_loop ci neg N (f + 1) fs (singularity_step ci neg N f fc st)"

definition ComputeOrientationSingularities ::
  "('q \<Rightarrow> 'n \<Rightarrow> 'q \<Rightarrow> 'n \<Rightarrow> int \<times> int) \<Rightarrow> ('q \<Rightarrow> 'q) \<Rightarrow> (int \<Rightarrow> 'n) \<Rightarrow> face list \<Rightarrow>
   (int \<Rightarrow> 'q) \<Rightarrow> (int \<Rightarrow> 'q) \<times> (int \<rightharpoonup> int)" where
  "ComputeOrientationSingularities ci neg N F Q = singularity_loop ci neg N 0 F (Q, Map.empty)"

text \<open>
  A concrete field for the examples: a column of \<open>Q\<close> is a multiple of 90 degrees,
  given by its number, and negating a column turns it by 180 degrees; the column of
  \<open>N\<close> at a vertex holds the turn that the field makes on the edges leaving it.
\<close>

definition demo_ci :: "int \<Rightarrow> int \<Rightarrow> int \<Rightarrow> int \<Rightarrow> int \<times> int" where
  "demo_ci q n q' n' = (0, (q' - q + n) mod 4)"

definition demo_neg :: "int \<Rightarrow> int" where
  "demo_neg q = (q + 2) mod 4"

definition demo_N :: "int \<Rightarrow> int" where
  "demo_N v = (if v = 0 then 1 else 0)"

definition demo_Q :: "int \<Rightarrow> int" where
  "demo_Q v = (if v = 1 then 1 else if v = 2 then 2 else 0)"

definition demo_F :: "face list" where
  "demo_F = [(0, 1, 2), (0, 2, 3)]"

section \<open>The edge-graph builder\<close>

text \<open>
  Containers are lists; an index outside a list (or outside the three entries of a
  \<open>Vector3i\<close>) is undefined behaviour in C++ and the fault \<open>OutOfRange\<close> here.
  \<open>eid / 3\<close> and \<open>eid % 3\<close> are C++ operations on ints: for \<open>eid = -1\<close> they
  give 0 and -1.
\<close>

type_synonym vec3 = "int \<times> int \<times> int"

definition list_at :: "'a list \<Rightarrow> int \<Rightarrow> fault + 'a" where
  "list_at xs i = (if 0 \<le> i \<and> i < int (length xs) then Inr (xs ! nat i) else Inl OutOfRange)"

definition list_put :: "'a list \<Rightarrow> int \<Rightarrow> 'a \<Rightarrow> fault + 'a list" where
  "list_put xs i v = (if 0 \<le> i \<and> i < int (length xs) then Inr (xs[nat i := v]) else Inl OutOfRange)"

definition vec3_at :: "vec3 \<Rightarrow> int \<Rightarrow> fault + int" where
  "vec3_at v k = (case v of (a, b, c) \<Rightarrow>
     if k = 0 then Inr a else if k = 1 then Inr b else if k = 2 then Inr c else Inl OutOfRange)"

definition vec3_put :: "vec3 \<Rightarrow> int \<Rightarrow> int \<Rightarrow> fault + vec3" where
  "vec3_put v k x = (case v of (a, b, c) \<Rightarrow>
     if k = 0 then Inr (x, b, c) else if k = 1 then Inr (a, x, c)
     else if k = 2 then Inr (a, b, x) else Inl OutOfRange)"

definition mat_at :: "vec3 list \<Rightarrow> int \<Rightarrow> int \<Rightarrow> fault + int" where
  "mat_at m i k = (case list_at m i of Inl e \<Rightarrow> Inl e | Inr v \<Rightarrow> vec3_at v k)"

definition mat_put :: "vec3 list \<Rightarrow> int \<Rightarrow> int \<Rightarrow> int \<Rightarrow> fault + vec3 list" where
  "mat_put m i k x =
     (case list_at m i of
        Inl e \<Rightarrow> Inl e
      | Inr v \<Rightarrow> (case vec3_put v k x of Inl e \<Rightarrow> Inl e | Inr v' \<Rightarrow> list_put m i v'))"

text \<open>\<open>std::vector::resize(n, value)\<close>: keeps the first n entries and pads with the value.\<close>

definition resize :: "'a list \<Rightarrow> nat \<Rightarrow> 'a \<Rightarrow> 'a list" where
  "resize xs n v = take n xs @ replicate (n - length xs) v"

text \<open>
  Modelled from the spec: \<open>DEdge\<close> (dedge.hpp) is not among the sources. The spec
  calls it an unordered pair of vertex ids with order-insensitive equality; it is kept
  as the pair with the smaller id first.
\<close>

definition DEdge :: "int \<Rightarrow> int \<Rightarrow> int \<times> int" where
  "DEdge x y = (if x < y then (x, y) else (y, x))"

text \<open>A loop whose body may fault stops at the first fault.\<close>

fun for_each :: "('a \<Rightarrow> 's \<Rightarrow> fault + 's) \<Rightarrow> 'a list \<Rightarrow> 's \<Rightarrow> fault + 's" where
  "for_each body [] s = Inr s"
| "for_each body (x # xs) s =
     (case body x s of Inl e \<Rightarrow> Inl e | Inr s' \<Rightarrow> for_each body xs s')"

record edge_info =
  edge_diff :: "vec2 list"
  edge_values :: "(int \<times> int) list"
  face_edgeIds :: "vec3 list"

text \<open>
  The body of the two nested loops of \<open>BuildEdgeInfo\<close> for face i and corner j.
  \<open>pos_rank\<close> and \<open>pos_index\<close> are matrices filled by the position-singularity
  pass; they are stores indexed by row and column.
\<close>

definition edge_info_corner ::
  "face list \<Rightarrow> int list \<Rightarrow> (int \<Rightarrow> int \<Rightarrow> int) \<Rightarrow> (int \<Rightarrow> int \<Rightarrow> int) \<Rightarrow> (int \<rightharpoonup> int) \<Rightarrow>
   nat \<times> nat \<Rightarrow> edge_info \<Rightarrow> fault + edge_info" where
  "edge_info_corner F E2E pos_rank pos_index singularities ij st =
     (case ij of (fi, fj) \<Rightarrow>
      let i = int fi; j = int fj;
          k1 = j; k2 = (j + 1) smod 3;
          v1 = face_vertex (F ! fi) k1;
          v2 = face_vertex (F ! fi) k2;
          e2 = DEdge v1 v2;
          rank2 = (if v1 > v2 then pos_rank k2 i else pos_rank k1 i);
          diff2 = (if v1 > v2
                   then rshift90 (- pos_index (k1 * 2) i, - pos_index (k1 * 2 + 1) i) rank2
                   else rshift90 (pos_index (k1 * 2) i, pos_index (k1 * 2 + 1) i) rank2);
          current_eid = i * 3 + k1
      in case list_at E2E current_eid of
           Inl e \<Rightarrow> Inl e
         | Inr eid \<Rightarrow>
            (case mat_at (face_edgeIds st) (eid sdiv 3) (eid smod 3) of
               Inl e \<Rightarrow> Inl e
             | Inr eID2 \<Rightarrow>
                if eID2 = - 1 then
                  (let eID2 = int (length (edge_values st));
                       st1 = st\<lparr>edge_values := edge_values st @ [e2],
                                 edge_diff := edge_diff st @ [diff2]\<rparr>
                   in case mat_put (face_edgeIds st1) i k1 eID2 of
                        Inl e \<Rightarrow> Inl e
                      | Inr ids \<Rightarrow>
                          if eid \<noteq> - 1
                          then (case mat_put ids (eid sdiv 3) (eid smod 3) eID2 of
                                  Inl e \<Rightarrow> Inl e
                                | Inr ids' \<Rightarrow> Inr (st1\<lparr>face_edgeIds := ids'\<rparr>))
                          else Inr (st1\<lparr>face_edgeIds := ids\<rparr>))
                else if singularities i = None then
                  (case list_put (edge_diff st) eID2 diff2 of
                     Inl e \<Rightarrow> Inl e
                   | Inr ed \<Rightarrow> Inr (st\<lparr>edge_diff := ed\<rparr>))
                else Inr st))"

definition corners :: "nat \<Rightarrow> (nat \<times> nat) list" where
  "corners n = concat (map (\<lambda>i. map (\<lambda>j. (i, j)) [0..<3]) [0..<n])"

text \<open>
  \<open>BuildEdgeInfo\<close>: \<open>ids0\<close> is the content of \<open>face_edgeIds\<close> before the call,
  empty in a fresh parametrizer.
\<close>

definition BuildEdgeInfo ::
  "face list \<Rightarrow> int list \<Rightarrow> (int \<Rightarrow> int \<Rightarrow> int) \<Rightarrow> (int \<Rightarrow> int \<Rightarrow> int) \<Rightarrow> (int \<rightharpoonup> int) \<Rightarrow>
   vec3 list \<Rightarrow> fault + edge_info" where
  "BuildEdgeInfo F E2E pos_rank pos_index singularities ids0 =
     for_each (edge_info_corner F E2E pos_rank pos_index singularities) (corners (length F))
       \<lparr>edge_diff = [], edge_values = [], face_edgeIds = resize ids0 (length F) (- 1, - 1, - 1)\<rparr>"

section \<open>The hole filler\<close>

text \<open>
  The inner \<open>while\<close> loop of \<open>FixHoles\<close> turns one boundary loop into quads.
  \<open>loop_vertices\<close> is the current loop; \<open>loop_edge\<close> is the list of boundary edges
  the loop was extracted from, which the loop body never shrinks, so only its size
  \<open>n_edges\<close> matters. \<open>directed_edges\<close> holds the hashes \<open>numV * v1 + v2\<close> of the
  directed edges of the quads emitted before \<open>FixHoles\<close>. The distance
  \<open>(O_compact[v1] - O_compact[v2]).norm()\<close> is a double computed from positions
  that are not integers: it is the parameter \<open>dis\<close>.
\<close>

type_synonym quad = "int \<times> int \<times> int \<times> int"

definition erase_at :: "'a list \<Rightarrow> nat \<Rightarrow> 'a list" where
  "erase_at xs i = take i xs @ drop (Suc i) xs"

definition swap13 :: "quad \<Rightarrow> quad" where
  "swap13 q = (case q of (a, b, c, d) \<Rightarrow> (a, d, c, b))"

definition fix_winding :: "int set \<Rightarrow> int \<Rightarrow> int \<Rightarrow> int \<Rightarrow> quad \<Rightarrow> quad" where
  "fix_winding directed_edges numV a b q =
     (if a * numV + b \<in> directed_edges then swap13 q else q)"

text \<open>
  One round of the search \<open>for (i = 0; i < loop_edge.size(); ++i)\<close>: the state is
  \<open>(min_dis, v_start)\<close>.
\<close>

definition search_step ::
  "(int \<Rightarrow> int \<Rightarrow> real) \<Rightarrow> nat \<Rightarrow> int list \<Rightarrow> nat \<Rightarrow> real \<times> int \<Rightarrow> fault + real \<times> int" where
  "search_step dis n_edges loop_vertices i st =
     (case list_at loop_vertices (int i) of
        Inl e \<Rightarrow> Inl e
      | Inr v1 \<Rightarrow>
         (case list_at loop_vertices ((int i + 3) smod int n_edges) of
            Inl e \<Rightarrow> Inl e
          | Inr v2 \<Rightarrow>
              if dis v1 v2 < fst st then Inr (dis v1 v2, int i) else Inr st))"

definition search_start ::
  "(int \<Rightarrow> int \<Rightarrow> real) \<Rightarrow> nat \<Rightarrow> int list \<Rightarrow> fault + int" where
  "search_start dis n_edges loop_vertices =
     (case for_each (search_step dis n_edges loop_vertices) [0..<n_edges] (10 ^ 30, - 1) of
        Inl e \<Rightarrow> Inl e
      | Inr st \<Rightarrow> Inr (snd st))"

lemma smod_nonneg: "0 \<le> a \<Longrightarrow> 0 < b \<Longrightarrow> a smod b = a mod (b::int)"
  by (simp add: signed_modulo_int_def sgn_if)

lemma length_erase_at_le: "length (erase_at xs i) \<le> length xs"
  by (simp add: erase_at_def)

lemma length_erase_at_less: "i < length xs \<Longrightarrow> length (erase_at xs i) < length xs"
  by (simp add: erase_at_def)

function fill_loop ::
  "(int \<Rightarrow> int \<Rightarrow> real) \<Rightarrow> int set \<Rightarrow> int \<Rightarrow> nat \<Rightarrow> int list \<Rightarrow> quad list \<Rightarrow> fault + quad list" where
  "fill_loop dis directed_edges numV n_edges loop_vertices F_compact =
     (if loop_vertices = [] then Inr F_compact
      else if length loop_vertices \<le> 4 then
        (if length loop_vertices = 4
         then Inr (F_compact @ [fix_winding directed_edges numV (loop_vertices ! 0) (loop_vertices ! 1)
                 (loop_vertices ! 0, loop_vertices ! 1, loop_vertices ! 2, loop_vertices ! 3)])
         else if length loop_vertices < 3 then Inl OutOfRange
         else Inr (F_compact @ [fix_winding directed_edges numV (loop_vertices ! 0) (loop_vertices ! 1)
                 (loop_vertices ! 0, loop_vertices ! 1, loop_vertices ! 2, loop_vertices ! 2)]))
      else
        (case search_start dis n_edges loop_vertices of
           Inl e \<Rightarrow> Inl e
         | Inr v_start \<Rightarrow>
             if v_start < 0 \<or> int (length loop_vertices) \<le> v_start then Inl OutOfRange
             else
               let size = int (length loop_vertices);
                   q = (loop_vertices ! nat v_start,
                        loop_vertices ! nat ((v_start + 1) smod size),
                        loop_vertices ! nat ((v_start + 2) smod size),
                        loop_vertices ! nat ((v_start + 3) smod size));
                   q' = fix_winding directed_edges numV (fst q) (fst (snd q)) q;
                   d1 = (v_start + 1) smod size;
                   d2 = (v_start + 2) smod size;
                   delete_v1 = (if d1 > d2 then d2 else d1);
                   delete_v2 = (if d1 > d2 then d1 else d2)
               in fill_loop dis directed_edges numV n_edges
                    (erase_at (erase_at loop_vertices (nat delete_v2)) (nat delete_v1))
                    (F_compact @ [q'])))"
  by pat_completeness auto
termination
proof (relation "measure (\<lambda>(dis, directed_edges, numV, n_edges, loop_vertices, F_compact). length loop_vertices)")
  show "wf (measure (\<lambda>(dis, directed_edges, numV, n_edges, loop_vertices, F_compact). length loop_vertices))"
    by simp
next
  fix dis :: "int \<Rightarrow> int \<Rightarrow> real" and directed_edges :: "int set" and numV :: int and n_edges :: nat
    and loop_vertices :: "int list" and F_compact :: "quad list"
    and v_start size :: int and q q' :: quad and d1 d2 delete_v1 delete_v2 :: int
  assume ne: "loop_vertices \<noteq> []" and big: "\<not> length loop_vertices \<le> 4"
    and vs: "\<not> (v_start < 0 \<or> int (length loop_vertices) \<le> v_start)"
    and size: "size = int (length loop_vertices)"
    and d1: "d1 = (v_start + 1) smod size" and d2: "d2 = (v_start + 2) smod size"
    and dv1: "delete_v1 = (if d2 < d1 then d2 else d1)"
    and dv2: "delete_v2 = (if d2 < d1 then d1 else d2)"
  have pos: "0 < size" "0 \<le> v_start + 1" "0 \<le> v_start + 2"
    using vs big ne unfolding size by simp_all
  have "0 \<le> d1" "d1 < size" "0 \<le> d2" "d2 < size"
    unfolding d1 d2 using pos by (simp_all add: smod_nonneg)
  then have "nat delete_v2 < length loop_vertices"
    unfolding dv2 size by auto
  then have "length (erase_at loop_vertices (nat delete_v2)) < length loop_vertices"
    by (rule length_erase_at_less)
  moreover have "length (erase_at (erase_at loop_vertices (nat delete_v2)) (nat delete_v1))
                 \<le> length (erase_at loop_vertices (nat delete_v2))"
    by (rule length_erase_at_le)
  ultimately show "((dis, directed_edges, numV, n_edges,
           erase_at (erase_at loop_vertices (nat delete_v2)) (nat delete_v1), F_compact @ [q']),
          dis, directed_edges, numV, n_edges, loop_vertices, F_compact)
         \<in> measure (\<lambda>(dis, directed_edges, numV, n_edges, loop_vertices, F_compact). length loop_vertices)"
    by simp
qed

declare fill_loop.simps [simp del]

section \<open>Cut variables and the random perturbation\<close>

text \<open>
  The last part of \<open>BuildIntegerConstraints\<close>, after the branch of every singularity
  has been applied to the constraint rows: the residual \<open>total_flow\<close> and the net sign
  of every variable are recomputed from the constraints, the variables with a nonzero
  net sign are inserted into \<open>cuts\<close>, the candidates for a perturbation are collected
  in \<open>modified_variables\<close>, shuffled, and the first \<open>abs(target_flow) / 2\<close> of them
  are applied to \<open>edge_diff\<close>.

  A variable is a flat index \<open>i\<close> into \<open>edge_diff\<close>: component \<open>i % 2\<close> of edge
  \<open>i / 2\<close>. \<open>std::random_shuffle\<close> is the parameter \<open>shuffle\<close>.
\<close>

definition vec2_at :: "vec2 \<Rightarrow> int \<Rightarrow> fault + int" where
  "vec2_at v k = (if k = 0 then Inr (fst v) else if k = 1 then Inr (snd v) else Inl OutOfRange)"

definition vec2_put :: "vec2 \<Rightarrow> int \<Rightarrow> int \<Rightarrow> fault + vec2" where
  "vec2_put v k x =
     (if k = 0 then Inr (x, snd v) else if k = 1 then Inr (fst v, x) else Inl OutOfRange)"

definition diff_at :: "vec2 list \<Rightarrow> int \<Rightarrow> fault + int" where
  "diff_at ed i = (case list_at ed (i sdiv 2) of Inl e \<Rightarrow> Inl e | Inr v \<Rightarrow> vec2_at v (i smod 2))"

definition diff_add :: "vec2 list \<Rightarrow> int \<Rightarrow> int \<Rightarrow> fault + vec2 list" where
  "diff_add ed i x =
     (case list_at ed (i sdiv 2) of
        Inl e \<Rightarrow> Inl e
      | Inr v \<Rightarrow>
         (case vec2_at v (i smod 2) of
            Inl e \<Rightarrow> Inl e
          | Inr d \<Rightarrow>
             (case vec2_put v (i smod 2) (d + x) of
                Inl e \<Rightarrow> Inl e
              | Inr v' \<Rightarrow> list_put ed (i sdiv 2) v')))"

type_synonym variable = "vec2 \<times> int"

text \<open>
  \<open>auto& p = variables[index[j]].first; if (sign[j] > 0) p[0] = i; else p[1] = i;
  variables[index[j]].second += sign[j];\<close>
\<close>

definition variable_update :: "variable list \<Rightarrow> int \<Rightarrow> int \<Rightarrow> int \<Rightarrow> fault + variable list" where
  "variable_update vars k i s =
     (case list_at vars k of
        Inl e \<Rightarrow> Inl e
      | Inr v \<Rightarrow>
          list_put vars k
            ((if s > 0 then (i, snd (fst v)) else (fst (fst v), i)), snd v + s))"

text \<open>The body of the loop over the constraints (lines 1294 to 1310).\<close>

definition constraint_step ::
  "vec2 list \<Rightarrow> vec3 list \<Rightarrow> vec3 list \<Rightarrow> nat \<Rightarrow> variable list \<times> int \<Rightarrow> fault + variable list \<times> int" where
  "constraint_step ed constraints_index constraints_sign n st =
     (let i = int n; index = constraints_index ! n in
      case list_at constraints_sign i of
        Inl e \<Rightarrow> Inl e
      | Inr sign \<Rightarrow>
      (case index of (i0, i1, i2) \<Rightarrow> case sign of (s0, s1, s2) \<Rightarrow>
       case diff_at ed i0 of Inl e \<Rightarrow> Inl e | Inr diff1 \<Rightarrow>
       case diff_at ed i1 of Inl e \<Rightarrow> Inl e | Inr diff2 \<Rightarrow>
       case diff_at ed i2 of Inl e \<Rightarrow> Inl e | Inr diff3 \<Rightarrow>
       let diff = s0 * diff1 + s1 * diff2 + s2 * diff3;
           total_flow = snd st + diff
       in case variable_update (fst st) i0 i s0 of Inl e \<Rightarrow> Inl e | Inr vars0 \<Rightarrow>
          case variable_update vars0 i1 i s1 of Inl e \<Rightarrow> Inl e | Inr vars1 \<Rightarrow>
          case variable_update vars1 i2 i s2 of Inl e \<Rightarrow> Inl e | Inr vars2 \<Rightarrow>
          Inr (vars2, total_flow)))"

definition constraint_loop ::
  "vec2 list \<Rightarrow> vec3 list \<Rightarrow> vec3 list \<Rightarrow> variable list \<Rightarrow> fault + variable list \<times> int" where
  "constraint_loop ed constraints_index constraints_sign variables0 =
     for_each (constraint_step ed constraints_index constraints_sign)
       [0..<length constraints_index]
       (resize variables0 (length ed * 2) ((- 1, - 1), 0), 0)"

text \<open>The body of the loop over the variables (lines 1313 to 1332).\<close>

definition cut_step ::
  "vec2 list \<Rightarrow> (int \<times> int) list \<Rightarrow> int \<Rightarrow> variable list \<Rightarrow> nat \<Rightarrow>
   (int \<times> int) set \<times> (int \<times> int) list \<Rightarrow> fault + (int \<times> int) set \<times> (int \<times> int) list" where
  "cut_step ed ev target_flow vars n st =
     (let i = int n; second = snd (vars ! n) in
      if second \<noteq> 0 then
        (case list_at ev (i sdiv 2) of
           Inl e \<Rightarrow> Inl e
         | Inr dedge \<Rightarrow>
            let cuts = insert dedge (fst st) in
            if target_flow > 0 then
              (case diff_at ed i of
                 Inl e \<Rightarrow> Inl e
               | Inr d \<Rightarrow>
                   Inr (cuts, snd st @ (if second > 0 \<and> d > - 1 then [(i, - 1)] else [])
                                     @ (if second < 0 \<and> d < 1 then [(i, 1)] else [])))
            else if target_flow < 0 then
              (case diff_at ed i of
                 Inl e \<Rightarrow> Inl e
               | Inr d \<Rightarrow>
                   Inr (cuts, snd st @ (if second < 0 \<and> d > - 1 then [(i, - 1)] else [])
                                     @ (if second > 0 \<and> d < 1 then [(i, 1)] else [])))
            else Inr (cuts, snd st))
      else Inr st)"

text \<open>The body of the loop that applies the perturbations (lines 1336 to 1339).\<close>

definition apply_step :: "(int \<times> int) list \<Rightarrow> nat \<Rightarrow> vec2 list \<Rightarrow> fault + vec2 list" where
  "apply_step modified_variables n ed =
     (case list_at modified_variables (int n) of
        Inl e \<Rightarrow> Inl e
      | Inr info \<Rightarrow> diff_add ed (fst info) (snd info))"

record perturbed =
  p_edge_diff :: "vec2 list"
  p_cuts :: "(int \<times> int) set"
  p_variables :: "variable list"
  p_total_flow :: int
  p_modified :: "(int \<times> int) list"

definition perturb_cut_variables ::
  "((int \<times> int) list \<Rightarrow> (int \<times> int) list) \<Rightarrow> vec3 list \<Rightarrow> vec3 list \<Rightarrow> (int \<times> int) list \<Rightarrow>
   int \<Rightarrow> variable list \<Rightarrow> vec2 list \<Rightarrow> fault + perturbed" where
  "perturb_cut_variables shuffle constraints_index constraints_sign ev target_flow variables0 ed =
     (case constraint_loop ed constraints_index constraints_sign variables0 of
        Inl e \<Rightarrow> Inl e
      | Inr (vars, total_flow) \<Rightarrow>
         (case for_each (cut_step ed ev target_flow vars) [0..<length vars] ({}, []) of
            Inl e \<Rightarrow> Inl e
          | Inr (cuts, modified_variables) \<Rightarrow>
             (case for_each (apply_step (shuffle modified_variables))
                     [0..<nat (\<bar>target_flow\<bar> sdiv 2)] ed of
                Inl e \<Rightarrow> Inl e
              | Inr ed' \<Rightarrow>
                  Inr \<lparr>p_edge_diff = ed', p_cuts = cuts, p_variables = vars,
                       p_total_flow = total_flow, p_modified = shuffle modified_variables\<rparr>)))"

text \<open>The flat view of \<open>edge_diff\<close>: entry i is component \<open>i % 2\<close> of edge \<open>i / 2\<close>.\<close>

definition flat :: "vec2 list \<Rightarrow> int list" where
  "flat ed = concat (map (\<lambda>v. [fst v, snd v]) ed)"

definition in_clamp :: "int \<Rightarrow> bool" where
  "in_clamp d = (d = - 1 \<or> d = 0 \<or> d = 1)"

text \<open>
  The residual as a sum over the variables: the net sign of each variable (the second
  component of its entry in \<open>variables\<close>) times its value.
\<close>

definition net_sum :: "variable list \<Rightarrow> int list \<Rightarrow> int" where
  "net_sum vars fl = (\<Sum>n<length vars. snd (vars ! n) * fl ! n)"

text \<open>
  What the loop over the variables pushes to \<open>modified_variables\<close> for variable n:
  at most one pair (variable, change), only for a variable with a nonzero net sign and
  only when the change keeps the component in the clamp.
\<close>

definition candidates :: "int \<Rightarrow> variable list \<Rightarrow> int list \<Rightarrow> nat \<Rightarrow> (int \<times> int) list" where
  "candidates target_flow vars fl n =
     (let second = snd (vars ! n); d = fl ! n in
      if second = 0 then []
      else if target_flow > 0 then
        (if second > 0 \<and> d > - 1 then [(int n, - 1)] else []) @
        (if second < 0 \<and> d < 1 then [(int n, 1)] else [])
      else if target_flow < 0 then
        (if second < 0 \<and> d > - 1 then [(int n, - 1)] else []) @
        (if second > 0 \<and> d < 1 then [(int n, 1)] else [])
      else [])"

text \<open>
  An example: three edges, two constraints over their six variables, residual 2.
\<close>

definition demo_ed :: "vec2 list" where "demo_ed = [(1, 0), (1, 0), (0, 0)]"
definition demo_index :: "vec3 list" where "demo_index = [(0, 2, 4), (1, 3, 5)]"
definition demo_sign :: "vec3 list" where "demo_sign = [(1, 1, 1), (1, 1, 1)]"
definition demo_ev :: "(int \<times> int) list" where "demo_ev = [(0, 1), (1, 2), (0, 2)]"
definition demo_vars :: "variable list" where
  "demo_vars = [((0, - 1), 1), ((1, - 1), 1), ((0, - 1), 1), ((1, - 1), 1), ((0, - 1), 1), ((1, - 1), 1)]"

section \<open>The state of the flip-fix engine\<close>

text \<open>
  \<open>FixFlipAdvance\<close> works on members of the parametrizer (\<open>edge_diff\<close>,
  \<open>edge_values\<close>, \<open>face_edgeIds\<close>, \<open>face_edgeOrients\<close>, the faces \<open>hierarchy.mF\<close>)
  and on locals that its lambdas capture by reference: \<open>parent_edge\<close>,
  \<open>edge_to_faces\<close> (a vector of \<open>std::set<int>\<close>, kept as ascending lists without
  repetition), \<open>vertices_to_edges\<close> (a vector of hash maps from a neighbour vertex
  to a list of edge ids, kept as association lists), \<open>tree\<close> and \<open>edge_len\<close>.

  Modelled from the spec: \<open>DisajointTree\<close> (dset.hpp) is not among the sources. The
  spec calls it a plain union-find over vertices with path compression, whose
  \<open>MergeFromTo(a, b)\<close> sets the root of a to b. The model keeps its abstract value,
  the map from a vertex to the root of its class.
\<close>

record flip_state = edge_info +
  face_edgeOrients :: "vec3 list"
  mF :: "face list"
  parent_edge :: parents
  edge_to_faces :: "nat list list"
  vertices_to_edges :: "(int \<times> nat list) list list"
  tree :: "int \<Rightarrow> int"
  edge_len :: int




text \<open>
  \<open>get_parents(parent_edge, eid)\<close> and \<open>get_parents_orient(parent_edge, eid)\<close> on the
  state; the first compresses the path in \<open>parent_edge\<close>.
\<close>

definition find_edge :: "flip_state \<Rightarrow> int \<Rightarrow> fault + nat \<times> flip_state" where
  "find_edge s eid =
     (if eid < 0 then Inl OutOfRange
      else case get_parents (parent_edge s) (nat eid) of
             Inl e \<Rightarrow> Inl e
           | Inr (k, ps) \<Rightarrow> Inr (k, s\<lparr>parent_edge := ps\<rparr>))"





section \<open>ExtractEdgeSet\<close>






section \<open>collapse\<close>

text \<open>
  Sequencing of steps that may fault, and a read of a \<open>std::vector\<close> at a natural
  index.
\<close>

definition bindf :: "fault + 'a \<Rightarrow> ('a \<Rightarrow> fault + 'b) \<Rightarrow> fault + 'b" where
  "bindf m k = (case m of Inl e \<Rightarrow> Inl e | Inr x \<Rightarrow> k x)"

lemma bindf_cong [fundef_cong]:
  "m = m' \<Longrightarrow> (\<And>x. m' = Inr x \<Longrightarrow> k x = k' x) \<Longrightarrow> bindf m k = bindf m' k'"
  by (cases m') (simp_all add: bindf_def)

lemma bindf_Inr: "bindf m k = Inr y \<longleftrightarrow> (\<exists>x. m = Inr x \<and> k x = Inr y)"
  by (cases m) (simp_all add: bindf_def)

lemma bindf_simps [simp]: "bindf (Inl e) k = Inl e" "bindf (Inr x) k = k x"
  by (simp_all add: bindf_def)

definition nth_at :: "'a list \<Rightarrow> nat \<Rightarrow> fault + 'a" where
  "nth_at xs n = (if n < length xs then Inr (xs ! n) else Inl OutOfRange)"











text \<open>
  \<open>edge_diff[get_parents(parent_edge, face_edgeIds[f][j])]\<close>, and the pair
  \<open>tree.Parent(F(j, f)), tree.Parent(F((j + 1) % 3, f))\<close>.
\<close>

definition root_diff :: "flip_state \<Rightarrow> nat \<Rightarrow> int \<Rightarrow> fault + vec2 \<times> flip_state" where
  "root_diff s f j =
     bindf (mat_at (face_edgeIds s) (int f) j) (\<lambda>eid.
     bindf (find_edge s eid) (\<lambda>(p, s1).
     bindf (nth_at (edge_diff s1) p) (\<lambda>d. Inr (d, s1))))"



subsection \<open>The first loop: the faces of the zero edges between v1 and v2\<close>



subsection \<open>The second loop: the adjacency of v1 moves to v2\<close>



subsection \<open>The third loop: corner edges that have become the same edge are merged\<close>





subsection \<open>What the finds leave alone\<close>

text \<open>
  \<open>only_parents s s'\<close>: the two states differ at most in \<open>parent_edge\<close>. The finds
  compress paths and change nothing else; the facts below are what the termination
  proofs of the loops need.
\<close>

definition only_parents :: "flip_state \<Rightarrow> flip_state \<Rightarrow> bool" where
  "only_parents s s' = (s' = s\<lparr>parent_edge := parent_edge s'\<rparr>)"

lemma only_parents_refl [simp]: "only_parents s s"
  by (simp add: only_parents_def)



lemma only_parents_fields:
  "only_parents s s' \<Longrightarrow>
     edge_diff s' = edge_diff s \<and> edge_values s' = edge_values s \<and>
     face_edgeIds s' = face_edgeIds s \<and> face_edgeOrients s' = face_edgeOrients s \<and>
     mF s' = mF s \<and> edge_to_faces s' = edge_to_faces s \<and>
     vertices_to_edges s' = vertices_to_edges s \<and> tree s' = tree s \<and> edge_len s' = edge_len s"
  unfolding only_parents_def
  by (cases s, cases s') auto

lemma find_edge_only_parents: "find_edge s eid = Inr (k, s') \<Longrightarrow> only_parents s s'"
  by (auto simp: find_edge_def only_parents_def split: if_splits sum.splits)

lemma root_diff_only_parents: "root_diff s f j = Inr (d, s') \<Longrightarrow> only_parents s s'"
  by (auto simp: root_diff_def bindf_Inr dest: find_edge_only_parents)















subsection \<open>The last loop: the collapsed faces leave the face sets\<close>



section \<open>The edge set of a move\<close>








section \<open>CheckMove\<close>









section \<open>The range of the edge diffs\<close>

text \<open>
  \<open>keeps_diff s s'\<close>: a step from s to s' has written neither \<open>edge_diff\<close> nor
  \<open>edge_len\<close>. \<open>clamped\<close>: every component of every diff is -1, 0 or 1.
\<close>

definition keeps_diff :: "flip_state \<Rightarrow> flip_state \<Rightarrow> bool" where
  "keeps_diff s s' = (edge_diff s' = edge_diff s \<and> edge_len s' = edge_len s)"











section \<open>Properties of the edge union-find\<close>

lemma smod4_mod4: "(a smod 4) mod 4 = a mod (4::int)"
proof -
  have "a smod 4 = a - a sdiv 4 * 4" by (simp add: minus_sdiv_mult_eq_smod)
  also have "(a - a sdiv 4 * 4) mod 4 = a mod 4" by presburger
  finally show ?thesis .
qed

lemma mod4_add_cong: "t mod 4 = s mod 4 \<Longrightarrow> (a + t) mod 4 = (a + s) mod (4::int)"
  by (rule mod_add_cong[OF refl])

lemma smod4_add_cong: "t mod 4 = s mod 4 \<Longrightarrow> (x smod 4 + t) mod 4 = (x + s) mod (4::int)"
  by (rule mod_add_cong[OF smod4_mod4])

lemma mod4_add_cancel: "(a + t) mod 4 = (a + s) mod 4 \<Longrightarrow> t mod 4 = s mod (4::int)"
  using mod_diff_cong[of "a + t" 4 "a + s" a a] by simp

lemma walk_det: "walk ps d j r s \<Longrightarrow> walk ps d' j r' s' \<Longrightarrow> d = d' \<and> r = r' \<and> s = s'"
proof (induction arbitrary: d' r' s' rule: walk.induct)
  case (walk_root j ps)
  then show ?case by (auto elim: walk.cases)
next
  case (walk_step j ps d r s)
  from walk_step.prems walk_step.hyps(1,2) obtain d2 s2 where
    "d' = Suc d2" "s' = snd (ps ! j) + s2" "walk ps d2 (fst (ps ! j)) r' s2"
    by (auto elim: walk.cases)
  with walk_step.IH show ?case by auto
qed

lemma walk_lt: "walk ps d j r s \<Longrightarrow> j < length ps \<and> r < length ps \<and> fst (ps ! r) = r"
  by (induction rule: walk.induct) auto

lemma reaches_root_walk: "reaches_root n ps j \<Longrightarrow> \<exists>d r s. d < n \<and> walk ps d j r s"
proof (induction n arbitrary: j)
  case 0 then show ?case by simp
next
  case (Suc n)
  show ?case
  proof (cases "fst (ps ! j) = j")
    case True
    with Suc.prems show ?thesis by (auto intro: walk_root)
  next
    case False
    with Suc.prems have "reaches_root n ps (fst (ps ! j))" "j < length ps" by auto
    with Suc.IH obtain d r s where "d < n" "walk ps d (fst (ps ! j)) r s" by blast
    with False \<open>j < length ps\<close> show ?thesis by (auto intro: walk_step)
  qed
qed

lemma orient_fuel_walk:
  "walk ps d j r s \<Longrightarrow> d < n \<Longrightarrow> \<exists>t. get_parents_orient_fuel n ps j = Inr t \<and> t mod 4 = s mod 4"
proof (induction arbitrary: n rule: walk.induct)
  case (walk_root j ps)
  then obtain m where "n = Suc m" by (cases n) auto
  with walk_root show ?case by simp
next
  case (walk_step j ps d r s)
  then obtain m where n: "n = Suc m" "d < m" by (cases n) auto
  from walk_step.IH[OF n(2)] obtain t where
    t: "get_parents_orient_fuel m ps (fst (ps ! j)) = Inr t" "t mod 4 = s mod 4" by blast
  have "((snd (ps ! j) + t) smod 4) mod 4 = (snd (ps ! j) + s) mod 4"
    using mod4_add_cong[OF t(2)] by (simp only: smod4_mod4)
  with t n walk_step.hyps show ?case by simp
qed


lemma sem_refl: "sem ps ps"
  unfolding sem_def by blast

lemma sem_trans: "sem a b \<Longrightarrow> sem b c \<Longrightarrow> sem a c"
  unfolding sem_def
  apply clarsimp
  subgoal for k d r s
    apply (drule spec[of _ k], drule spec[of _ d], drule spec[of _ r], drule spec[of _ s])
    apply clarsimp
    subgoal for d' s'
      apply (drule spec[of _ k], drule spec[of _ d'], drule spec[of _ r], drule spec[of _ s'])
      apply clarsimp
      subgoal for d'' s'' by (rule exI[of _ d''], simp, rule exI[of _ s''], simp)
      done
    done
  done

lemma shortcut_walk:
  assumes rz: "rootzero ps"
    and wj: "walk ps dj j rj sj"
    and nr: "fst (ps ! j) \<noteq> j"
    and ps': "ps' = ps[j := (fst (ps ! fst (ps ! j)), (snd (ps ! j) + snd (ps ! fst (ps ! j))) smod 4)]"
  shows "walk ps d k r s \<Longrightarrow> \<exists>d' s'. d' \<le> d \<and> walk ps' d' k r s' \<and> s' mod 4 = s mod 4"
proof (induction ps\<equiv>ps d k r s rule: walk.induct)
  case root: (walk_root k)
  then have "k \<noteq> j" using nr by auto
  with root have "walk ps' 0 k k (snd (ps ! k))"
    using walk_root[of k ps'] by (simp add: ps')
  then show ?case by blast
next
  case step: (walk_step k d r s)
  then obtain d' s' where IH: "d' \<le> d" "walk ps' d' (fst (ps ! k)) r s'" "s' mod 4 = s mod 4"
    by blast
  show ?case
  proof (cases "k = j")
    case False
    with step.hyps have "walk ps' (Suc d') k r (snd (ps ! k) + s')"
      using walk_step[of k ps' d' r s'] IH(2) by (simp add: ps')
    moreover have "(snd (ps ! k) + s') mod 4 = (snd (ps ! k) + s) mod 4"
      using IH(3) by (rule mod4_add_cong)
    ultimately show ?thesis using IH(1) by (intro exI[of _ "Suc d'"] exI[of _ "snd (ps ! k) + s'"]) simp
  next
    case True
    define p where "p = fst (ps ! j)"
    define g where "g = fst (ps ! p)"
    have pj: "p \<noteq> j" using nr p_def by simp
    have jl: "j < length ps" using step.hyps True by simp
    have psj: "ps' ! j = (g, (snd (ps ! j) + snd (ps ! p)) smod 4)"
      using jl by (simp add: ps' p_def g_def)
    have psp: "ps' ! p = ps ! p" using pj by (simp add: ps')
    have wp: "walk ps d p r s" using step.hyps True p_def by simp
    have wp': "walk ps' d' p r s'" using IH(2) True p_def by simp
    show ?thesis
    proof (cases "g = p")
      case gp: True
      from wp gp have s0: "s = snd (ps ! p)" "r = p"
        by (auto elim: walk.cases simp: g_def)
      from wp have "p < length ps" using walk_lt by blast
      with rz gp have "snd (ps ! p) = 0" by (simp add: rootzero_def g_def)
      have "walk ps' (Suc d') j r ((snd (ps ! j) + snd (ps ! p)) smod 4 + s')"
        using walk_step[of j ps' d' r s'] psj gp pj wp' jl by (simp add: ps')
      moreover have "((snd (ps ! j) + snd (ps ! p)) smod 4 + s') mod 4 = (snd (ps ! j) + s) mod 4"
        using smod4_add_cong[OF IH(3), of "snd (ps ! j) + snd (ps ! p)"] \<open>snd (ps ! p) = 0\<close>
        by simp
      ultimately show ?thesis using IH(1) True
        by (intro exI[of _ "Suc d'"] exI[of _ "(snd (ps ! j) + snd (ps ! p)) smod 4 + s'"]) simp
    next
      case gp: False
      from wp gp obtain d2 s2 where d2: "d = Suc d2" "s = snd (ps ! p) + s2" "walk ps d2 g r s2"
        by (auto elim: walk.cases simp: g_def)
      from wp' gp psp obtain d2' s2' where
        d2': "d' = Suc d2'" "s' = snd (ps ! p) + s2'" "walk ps' d2' g r s2'"
        by (auto elim: walk.cases simp: g_def)
      have gj: "g \<noteq> j"
      proof
        assume "g = j"
        with d2(3) have "walk ps d2 j r s2" by simp
        moreover have "walk ps (Suc d) j r (snd (ps ! j) + s)"
          using walk_step[of j ps d r s] jl nr wp p_def by simp
        ultimately have "d2 = Suc d" by (rule walk_det[THEN conjunct1])
        with d2(1) show False by simp
      qed
      have "walk ps' (Suc d2') j r ((snd (ps ! j) + snd (ps ! p)) smod 4 + s2')"
        using walk_step[of j ps' d2' r s2'] psj gj d2'(3) jl by (simp add: ps')
      moreover have "((snd (ps ! j) + snd (ps ! p)) smod 4 + s2') mod 4 = (snd (ps ! j) + s) mod 4"
      proof -
        have "s2' mod 4 = s2 mod 4"
          using IH(3) unfolding d2(2) d2'(2) by (rule mod4_add_cancel)
        then have "((snd (ps ! j) + snd (ps ! p)) smod 4 + s2') mod 4
                   = ((snd (ps ! j) + snd (ps ! p)) + s2) mod 4"
          by (rule smod4_add_cong)
        then show ?thesis using d2(2) by (simp add: add.assoc)
      qed
      moreover have "Suc d2' \<le> Suc d" using IH(1) d2'(1) by simp
      ultimately show ?thesis using True
        by (intro exI[of _ "Suc d2'"] exI[of _ "(snd (ps ! j) + snd (ps ! p)) smod 4 + s2'"]) simp
    qed
  qed
qed


lemma shortcut_sem:
  assumes "rootzero ps" "walk ps dj j rj sj" "fst (ps ! j) \<noteq> j"
    and "ps' = ps[j := (fst (ps ! fst (ps ! j)), (snd (ps ! j) + snd (ps ! fst (ps ! j))) smod 4)]"
  shows "sem ps ps'"
  unfolding sem_def using shortcut_walk[OF assms] assms(4) by simp

lemma walk_reaches_root: "walk ps d j r s \<Longrightarrow> d < n \<Longrightarrow> reaches_root n ps j"
proof (induction arbitrary: n rule: walk.induct)
  case (walk_root j ps)
  then show ?case by (cases n) auto
next
  case (walk_step j ps d r s)
  then show ?case by (cases n) auto
qed

lemma get_parents_fuel_walk:
  "walk ps d j r s \<Longrightarrow> rootzero ps \<Longrightarrow> d < n \<Longrightarrow>
   \<exists>ps'. get_parents_fuel n ps j = Inr (r, ps') \<and> sem ps ps' \<and> rootzero ps' \<and> fst (ps' ! j) = r \<and>
         (\<forall>k dk rk sk. walk ps dk k rk sk \<longrightarrow> d < dk \<longrightarrow> ps' ! k = ps ! k)"
proof (induction arbitrary: n rule: walk.induct)
  case (walk_root j ps)
  then obtain m where "n = Suc m" by (cases n) auto
  with walk_root show ?case by (simp add: sem_refl)
next
  case (walk_step j ps d r s)
  then obtain m where n: "n = Suc m" "d < m" by (cases n) auto
  define p where "p = fst (ps ! j)"
  from walk_step.IH[OF walk_step.prems(1) n(2)] obtain ps1 where
    ps1: "get_parents_fuel m ps p = Inr (r, ps1)" "sem ps ps1" "rootzero ps1" "fst (ps1 ! p) = r"
      "\<forall>k dk rk sk. walk ps dk k rk sk \<longrightarrow> d < dk \<longrightarrow> ps1 ! k = ps ! k"
    unfolding p_def by blast
  have wj: "walk ps (Suc d) j r (snd (ps ! j) + s)"
    using walk.walk_step[OF walk_step.hyps] .
  have len: "length ps1 = length ps" using ps1(2) by (simp add: sem_def)
  have j1: "ps1 ! j = ps ! j" using ps1(5) wj by blast
  have pl: "p < length ps" using walk_step.hyps(3) walk_lt p_def by blast
  have rroot: "fst (ps ! r) = r" using walk_step.hyps(3) walk_lt by blast
  have rj: "r \<noteq> j" using rroot walk_step.hyps(2) by auto
  define ps' where "ps' = ps1[j := (r, (snd (ps1 ! j) + snd (ps1 ! fst (ps1 ! j))) smod 4)]"
  have res: "get_parents_fuel n ps j = Inr (r, ps')"
    using n walk_step.hyps(1,2) ps1(1) len j1 pl by (simp add: p_def ps'_def)
  obtain d1 s1 where w1: "walk ps1 d1 j r s1"
    using ps1(2) wj unfolding sem_def by blast
  have nr1: "fst (ps1 ! j) \<noteq> j" using j1 walk_step.hyps(2) by simp
  have "ps' = ps1[j := (fst (ps1 ! fst (ps1 ! j)), (snd (ps1 ! j) + snd (ps1 ! fst (ps1 ! j))) smod 4)]"
    using ps1(4) j1 by (simp add: ps'_def p_def)
  from shortcut_sem[OF ps1(3) w1 nr1 this] have s1': "sem ps1 ps'" .
  have sem': "sem ps ps'" using sem_trans[OF ps1(2) s1'] .
  have rz': "rootzero ps'"
    unfolding rootzero_def
  proof (intro allI impI)
    fix k assume k: "k < length ps'" "fst (ps' ! k) = k"
    show "snd (ps' ! k) = 0"
    proof (cases "k = j")
      case True
      with k have "r = j" by (simp add: ps'_def)
      with rj show ?thesis by simp
    next
      case False
      with k ps1(3) show ?thesis by (simp add: ps'_def rootzero_def)
    qed
  qed
  have fj: "fst (ps' ! j) = r"
    using walk_step.hyps(1) len by (simp add: ps'_def)
  have unch: "\<forall>k dk rk sk. walk ps dk k rk sk \<longrightarrow> Suc d < dk \<longrightarrow> ps' ! k = ps ! k"
  proof (intro allI impI)
    fix k dk rk sk assume a: "walk ps dk k rk sk" "Suc d < dk"
    have "k \<noteq> j"
    proof
      assume "k = j"
      with a(1) have "walk ps dk j rk sk" by simp
      from walk_det[OF this wj] a(2) show False by simp
    qed
    moreover have "d < dk" using a(2) by simp
    with ps1(5) a(1) have "ps1 ! k = ps ! k" by blast
    ultimately show "ps' ! k = ps ! k" by (simp add: ps'_def)
  qed
  from res sem' rz' fj unch show ?case by blast
qed

lemma wf_parents_iff:
  "wf_parents ps \<longleftrightarrow> rootzero ps \<and> (\<forall>j<length ps. \<exists>d r s. d < length ps \<and> walk ps d j r s)"
proof -
  have "reaches_root (length ps) ps j \<longleftrightarrow> (\<exists>d r s. d < length ps \<and> walk ps d j r s)" for j
    using reaches_root_walk walk_reaches_root by blast
  then show ?thesis
    unfolding wf_parents_def rootzero_def list_all_iff by auto
qed

text \<open>
  Claim C9. Path compression preserves the composed rotation: on a well-formed forest
  (every index reaches a root, roots carry the label 0) \<open>get_parents ps j\<close> returns,
  and for every index k the compressed array gives the same root as the array before
  compression (so a second call for j returns the root of the first), and the same
  value of \<open>get_parents_orient\<close> modulo 4. The compressed array is again well formed.
\<close>

theorem get_parents_keeps_rotation:
  assumes "wf_parents ps" and "j < length ps"
  shows "\<exists>r ps'. get_parents ps j = Inr (r, ps') \<and> wf_parents ps' \<and>
           (\<forall>k<length ps. \<exists>rk qs qs' t t'.
               get_parents ps k = Inr (rk, qs) \<and> get_parents ps' k = Inr (rk, qs') \<and>
               get_parents_orient ps k = Inr t \<and> get_parents_orient ps' k = Inr t' \<and>
               t' mod 4 = t mod 4)"
proof -
  from assms have rz: "rootzero ps"
    and wk: "\<And>k. k < length ps \<Longrightarrow> \<exists>d r s. d < length ps \<and> walk ps d k r s"
    by (simp_all add: wf_parents_iff)
  from wk[OF assms(2)] obtain d r s where w: "d < length ps" "walk ps d j r s" by blast
  from get_parents_fuel_walk[OF w(2) rz, of "Suc (length ps)"] w(1) obtain ps' where
    ps': "get_parents ps j = Inr (r, ps')" "sem ps ps'" "rootzero ps'"
    by (auto simp: get_parents_def)
  have len: "length ps' = length ps" using ps'(2) by (simp add: sem_def)
  have wk': "\<And>k. k < length ps \<Longrightarrow> \<exists>d r s. d < length ps \<and> walk ps' d k r s"
  proof -
    fix k assume "k < length ps"
    from wk[OF this] obtain dk rk sk where "dk < length ps" "walk ps dk k rk sk" by blast
    with ps'(2) obtain dk' sk' where "dk' \<le> dk" "walk ps' dk' k rk sk'"
      unfolding sem_def by blast
    with \<open>dk < length ps\<close> show "\<exists>d r s. d < length ps \<and> walk ps' d k r s"
      by (intro exI[of _ dk'] exI[of _ rk] exI[of _ sk']) simp
  qed
  have wf': "wf_parents ps'" using wk' ps'(3) len by (simp add: wf_parents_iff)
  have "\<exists>rk qs qs' t t'.
               get_parents ps k = Inr (rk, qs) \<and> get_parents ps' k = Inr (rk, qs') \<and>
               get_parents_orient ps k = Inr t \<and> get_parents_orient ps' k = Inr t' \<and>
               t' mod 4 = t mod 4" if k: "k < length ps" for k
  proof -
    from wk[OF k] obtain dk rk sk where a: "dk < length ps" "walk ps dk k rk sk" by blast
    with ps'(2) obtain dk' sk' where b: "dk' \<le> dk" "walk ps' dk' k rk sk'" "sk' mod 4 = sk mod 4"
      unfolding sem_def by blast
    from get_parents_fuel_walk[OF a(2) rz, of "Suc (length ps)"] a(1)
    obtain qs where 1: "get_parents ps k = Inr (rk, qs)" by (auto simp: get_parents_def)
    from get_parents_fuel_walk[OF b(2) ps'(3), of "Suc (length ps')"] a(1) b(1) len
    obtain qs' where 2: "get_parents ps' k = Inr (rk, qs')" by (auto simp: get_parents_def)
    from orient_fuel_walk[OF a(2), of "Suc (length ps)"] a(1)
    obtain t where 3: "get_parents_orient ps k = Inr t" "t mod 4 = sk mod 4"
      by (auto simp: get_parents_orient_def)
    from orient_fuel_walk[OF b(2), of "Suc (length ps')"] a(1) b(1) len
    obtain t' where 4: "get_parents_orient ps' k = Inr t'" "t' mod 4 = sk' mod 4"
      by (auto simp: get_parents_orient_def)
    from 1 2 3 4 b(3) show ?thesis by simp
  qed
  with ps'(1) wf' show ?thesis by blast
qed

theorem get_parents_keeps_rotation_witness:
  "wf_parents chain4 \<and> 3 < length chain4 \<and>
   get_parents chain4 3 = Inr (0, [(0, 0), (0, 1), (0, 3), (0, 2)]) \<and>
   (\<exists>r ps'. get_parents chain4 3 = Inr (r, ps') \<and> wf_parents ps' \<and>
           (\<forall>k<length chain4. \<exists>rk qs qs' t t'.
               get_parents chain4 k = Inr (rk, qs) \<and> get_parents ps' k = Inr (rk, qs') \<and>
               get_parents_orient chain4 k = Inr t \<and> get_parents_orient ps' k = Inr t' \<and>
               t' mod 4 = t mod 4))"
proof -
  have h: "wf_parents chain4" by (simp add: wf_parents_def chain4_def upt_rec)
  have l: "3 < length chain4" by (simp add: chain4_def)
  have e: "get_parents chain4 3 = Inr (0, [(0, 0), (0, 1), (0, 3), (0, 2)])"
    by (simp add: get_parents_def chain4_def eval_nat_numeral signed_modulo_int_def)
  note c = get_parents_keeps_rotation[OF h l]
  show ?thesis by (rule conjI[OF h conjI[OF l conjI[OF e c]]])
qed

section \<open>Properties of the class merge in collapse\<close>






section \<open>Properties of the singularity detector\<close>

lemma singularity_loop_append:
  "singularity_loop ci neg N f (xs @ ys) st
     = singularity_loop ci neg N (f + int (length xs)) ys (singularity_loop ci neg N f xs st)"
  by (induction xs arbitrary: f st) (auto simp: algebra_simps)

lemma singularity_step_other:
  "g \<noteq> f \<Longrightarrow> snd (singularity_step ci neg N f fc st) g = snd st g"
  by (cases st) (simp add: singularity_step_def Let_def)

lemma singularity_loop_other:
  "g < f \<or> f + int (length fs) \<le> g \<Longrightarrow> snd (singularity_loop ci neg N f fs st) g = snd st g"
proof (induction fs arbitrary: f st)
  case Nil then show ?case by simp
next
  case (Cons fc fs)
  have "snd (singularity_step ci neg N f fc st) g = snd st g"
    using Cons.prems by (intro singularity_step_other) auto
  moreover have "g < f + 1 \<or> f + 1 + int (length fs) \<le> g" using Cons.prems by auto
  ultimately show ?case using Cons.IH[of "f + 1"] by simp
qed

text \<open>
  Claim C5. Let \<open>Qf\<close> be the orientations that \<open>ComputeOrientationSingularities\<close>
  hands back on the faces before f, that is the store when the loop reaches face f, and
  \<open>index\<close> the raw sum of the three index differences of f taken there. The map of the
  run on all faces holds f exactly when \<open>index mod 4\<close> is 1 or 3, and then with that
  value; and the orientations that \<open>ComputeOrientationSingularities\<close> hands back on the
  faces up to and including f are \<open>Qf\<close> with the column at \<open>F(0,f)\<close> negated exactly
  when f is such a singular face and \<open>index\<close> lies outside 0..3, and \<open>Qf\<close> itself
  otherwise.
\<close>

theorem singularities_recorded_exactly:
  assumes "f < length F"
  shows "let Qf = fst (ComputeOrientationSingularities ci neg N (take f F) Q);
             index = face_index ci Qf N (F ! f);
             singular = (index mod 4 = 1 \<or> index mod 4 = 3);
             after = fst (ComputeOrientationSingularities ci neg N (take (Suc f) F) Q);
             final = ComputeOrientationSingularities ci neg N F Q
         in snd final (int f) = (if singular then Some (index mod 4) else None) \<and>
            after = (if singular \<and> (index < 0 \<or> 3 < index)
                     then Qf(face_vertex (F ! f) 0 := neg (Qf (face_vertex (F ! f) 0)))
                     else Qf)"
proof -
  define st where "st = singularity_loop ci neg N 0 (take f F) (Q, Map.empty)"
  define st1 where "st1 = singularity_step ci neg N (int f) (F ! f) st"
  have tk: "take (Suc f) F = take f F @ [F ! f]"
    using assms by (simp add: take_Suc_conv_app_nth)
  have Fs: "F = take (Suc f) F @ drop (Suc f) F" by simp
  have lt: "length (take f F) = f" using assms by simp
  have after: "singularity_loop ci neg N 0 (take (Suc f) F) (Q, Map.empty) = st1"
    unfolding tk singularity_loop_append lt st1_def st_def by simp
  have "ComputeOrientationSingularities ci neg N F Q
          = singularity_loop ci neg N (int (Suc f)) (drop (Suc f) F) st1"
    unfolding ComputeOrientationSingularities_def
    apply (subst Fs)
    apply (subst singularity_loop_append)
    using assms after by (simp add: min_def)
  then have fin: "snd (ComputeOrientationSingularities ci neg N F Q) (int f) = snd st1 (int f)"
    by (simp add: singularity_loop_other)
  have none: "snd st (int f) = None"
    unfolding st_def using singularity_loop_other[where f = 0 and fs = "take f F" and g = "int f" and st = "(Q, Map.empty)"] lt
    by simp
  have before: "ComputeOrientationSingularities ci neg N (take f F) Q = st"
    unfolding ComputeOrientationSingularities_def st_def ..
  have after': "ComputeOrientationSingularities ci neg N (take (Suc f) F) Q = st1"
    unfolding ComputeOrientationSingularities_def after ..
  show ?thesis
    unfolding Let_def fin before after'
    using none by (cases st) (auto simp: st1_def singularity_step_def Let_def modulo_def)
qed

theorem singularities_recorded_exactly_witness:
  "(0::nat) < length demo_F \<and>
   face_index demo_ci demo_Q demo_N (demo_F ! 0) = 5 \<and>
   snd (ComputeOrientationSingularities demo_ci demo_neg demo_N demo_F demo_Q) 0 = Some 1 \<and>
   fst (ComputeOrientationSingularities demo_ci demo_neg demo_N (take 0 demo_F) demo_Q) 0 = 0 \<and>
   fst (ComputeOrientationSingularities demo_ci demo_neg demo_N (take 1 demo_F) demo_Q) 0 = 2"
proof -
  have l: "(0::nat) < length demo_F" by (simp add: demo_F_def)
  have i: "face_index demo_ci demo_Q demo_N (demo_F ! 0) = 5"
    by (simp add: face_index_def edge_index_diff_def face_vertex_def demo_ci_def
          demo_N_def demo_Q_def demo_F_def)
  have e: "ComputeOrientationSingularities demo_ci demo_neg demo_N (take 0 demo_F) demo_Q
             = (demo_Q, Map.empty)"
    by (simp add: ComputeOrientationSingularities_def)
  have q: "fst (ComputeOrientationSingularities demo_ci demo_neg demo_N (take 0 demo_F) demo_Q) 0 = 0"
    unfolding e by (simp add: demo_Q_def)
  note t = singularities_recorded_exactly [OF l, of demo_ci demo_neg demo_N demo_Q,
      unfolded Let_def e fst_conv i]
  from t have r:
    "snd (ComputeOrientationSingularities demo_ci demo_neg demo_N demo_F demo_Q) 0 = Some 1 \<and>
     fst (ComputeOrientationSingularities demo_ci demo_neg demo_N (take 1 demo_F) demo_Q) 0 = 2"
    by (simp add: face_vertex_def demo_F_def demo_neg_def demo_Q_def)
  show ?thesis using l i q r by simp
qed

section \<open>Properties of the edge-graph builder\<close>

lemma sdiv_smod_minus1: "(- 1 :: int) sdiv 3 = 0" "(- 1 :: int) smod 3 = - 1"
  by (simp_all add: signed_divide_int_def signed_modulo_int_def)

lemma mat_at_minus1: "mat_at ids 0 (- 1) = Inl OutOfRange"
  by (simp add: mat_at_def list_at_def vec3_at_def split: prod.splits)

lemma mat_at_boundary: "mat_at ids ((- 1) sdiv 3) ((- 1) smod 3) = Inl OutOfRange"
  unfolding sdiv_smod_minus1 by (rule mat_at_minus1)

lemma boundary_corner_faults:
  "list_at E2E (int i * 3 + int j) = Inr (- 1) \<Longrightarrow>
   edge_info_corner F E2E pos_rank pos_index singularities (i, j) st = Inl OutOfRange"
  unfolding edge_info_corner_def Let_def by (simp only: prod.case sum.case mat_at_boundary)

text \<open>
  Claim C4 at a single triangle (0,1,2), all three half-edges on the boundary
  (\<open>E2E = [-1,-1,-1]\<close>), in a fresh parametrizer. For the first boundary half-edge
  the code evaluates \<open>face_edgeIds[eid / 3][eid % 3]\<close> with \<open>eid = -1\<close>, that is
  \<open>face_edgeIds[0][-1]\<close>, before it tests \<open>eid != -1\<close>: a read outside the three
  entries of the \<open>Vector3i\<close>. No edge id is allocated before that read.
\<close>

theorem BuildEdgeInfo_single_triangle_faults: "BuildEdgeInfo [(0, 1, 2)] [- 1, - 1, - 1] pos_rank pos_index Map.empty [] = Inl OutOfRange"
proof -
  have c: "corners (Suc 0) = [(0, 0), (0, 1), (0, 2)]" by (simp add: corners_def upt_rec)
  have e: "list_at [- 1, - 1, - 1] (int 0 * 3 + int 0) = Inr (- 1)" by (simp add: list_at_def)
  show ?thesis
    unfolding BuildEdgeInfo_def using boundary_corner_faults[OF e] by (simp add: c)
qed


lemma for_each_fault:
  assumes "x \<in> set xs" and "\<And>s. body x s = Inl OutOfRange"
    and "\<And>y s e. body y s = Inl e \<Longrightarrow> e = OutOfRange"
  shows "for_each body xs s = Inl OutOfRange"
  using assms(1)
proof (induction xs arbitrary: s)
  case Nil then show ?case by simp
next
  case (Cons y ys)
  show ?case
  proof (cases "body y s")
    case (Inl e)
    with assms(3) show ?thesis by auto
  next
    case (Inr s')
    show ?thesis
    proof (cases "y = x")
      case True with assms(2) Inr show ?thesis by simp
    next
      case False
      with Cons.prems have "x \<in> set ys" by simp
      with Cons.IH Inr show ?thesis by simp
    qed
  qed
qed

lemma mat_at_fault: "mat_at m i k = Inl e \<Longrightarrow> e = OutOfRange"
  by (auto simp: mat_at_def list_at_def vec3_at_def split: if_splits prod.splits)

lemma mat_put_fault: "mat_put m i k x = Inl e \<Longrightarrow> e = OutOfRange"
  by (auto simp: mat_put_def list_at_def list_put_def vec3_put_def split: if_splits prod.splits sum.splits)

lemma edge_info_corner_fault:
  "edge_info_corner F E2E pos_rank pos_index singularities ij st = Inl e \<Longrightarrow> e = OutOfRange"
  unfolding edge_info_corner_def Let_def
  by (auto simp: list_at_def list_put_def split: prod.splits sum.splits if_splits
           dest: mat_at_fault mat_put_fault)

lemma corners_mem: "i < n \<Longrightarrow> j < 3 \<Longrightarrow> (i, j) \<in> set (corners n)"
  unfolding corners_def by (simp, intro bexI[of _ i]) auto

text \<open>
  The same holds for every mesh that has a boundary half-edge at all.
\<close>

lemma BuildEdgeInfo_boundary_faults:
  assumes "i < length F" and "j < 3" and "list_at E2E (int i * 3 + int j) = Inr (- 1)"
  shows "BuildEdgeInfo F E2E pos_rank pos_index singularities ids0 = Inl OutOfRange"
  unfolding BuildEdgeInfo_def
proof (rule for_each_fault[where x = "(i, j)"])
  show "(i, j) \<in> set (corners (length F))" using assms(1,2) by (rule corners_mem)
  show "edge_info_corner F E2E pos_rank pos_index singularities (i, j) s = Inl OutOfRange" for s
    using assms(3) by (rule boundary_corner_faults)
  show "e = OutOfRange"
    if "edge_info_corner F E2E pos_rank pos_index singularities y s = Inl e" for y s e
    using that by (rule edge_info_corner_fault)
qed

section \<open>Properties of the hole filler\<close>

lemma search_step_fault: "search_step dis n lv i st = Inl e \<Longrightarrow> e = OutOfRange"
  by (auto simp: search_step_def list_at_def split: if_splits sum.splits)

lemma search_step_stale:
  "length lv \<le> nat ((int i + 3) smod int n) \<Longrightarrow> search_step dis n lv i st = Inl OutOfRange"
  by (auto simp: search_step_def list_at_def split: sum.splits)

lemma search_start_fault: "search_start dis n lv = Inl e \<Longrightarrow> e = OutOfRange"
proof -
  have "for_each body xs s = Inl e \<Longrightarrow> (\<And>y s e. body y s = Inl e \<Longrightarrow> e = OutOfRange) \<Longrightarrow> e = OutOfRange"
    for body :: "nat \<Rightarrow> real \<times> int \<Rightarrow> fault + real \<times> int" and xs s
    by (induction xs arbitrary: s) (auto split: sum.splits)
  then show "search_start dis n lv = Inl e \<Longrightarrow> e = OutOfRange"
    unfolding search_start_def using search_step_fault
    by (fastforce split: sum.splits)
qed

lemma search_start_stale:
  assumes "5 \<le> n" and "length lv = n - 2"
  shows "search_start dis n lv = Inl OutOfRange"
proof -
  have k: "int (n - 5) + 3 = int (n - 2)" using assms(1) by simp
  have "int (n - 2) smod int n = int (n - 2) mod int n"
    using assms(1) by (intro smod_nonneg) simp_all
  also have "\<dots> = int (n - 2)"
    using assms(1) by (intro mod_pos_pos_trivial) simp_all
  finally have m: "(int (n - 5) + 3) smod int n = int (n - 2)" unfolding k .
  have "for_each (search_step dis n lv) [0..<n] (10 ^ 30, - 1) = Inl OutOfRange"
  proof (rule for_each_fault[where x = "n - 5"])
    show "n - 5 \<in> set [0..<n]" using assms(1) by simp
    show "search_step dis n lv (n - 5) s = Inl OutOfRange" for s
      by (rule search_step_stale) (simp add: m assms(2))
    show "e = OutOfRange" if "search_step dis n lv y s = Inl e" for y s e
      using that by (rule search_step_fault)
  qed
  then show ?thesis by (simp add: search_start_def)
qed

lemma length_erase_two:
  assumes "a < b" and "b < length xs"
  shows "length (erase_at (erase_at xs b) a) = length xs - 2"
  using assms by (simp add: erase_at_def min_def)

text \<open>
  A loop of seven or more vertices: after the first quad the loop has two vertices
  fewer, but the search of the next round still runs i over \<open>loop_edge.size()\<close>, the
  original number, and reads \<open>loop_vertices[(i + 3) % loop_edge.size()]\<close>: an index
  past the end of the shrunken vector.
\<close>

lemma fill_loop_long_faults:
  assumes "7 \<le> length lv"
  shows "fill_loop dis directed_edges numV (length lv) lv F_compact = Inl OutOfRange"
proof (cases "search_start dis (length lv) lv")
  case (Inl e)
  then have "e = OutOfRange" by (rule search_start_fault)
  with Inl assms show ?thesis
    by (subst fill_loop.simps) auto
next
  case (Inr v_start)
  show ?thesis
  proof (cases "v_start < 0 \<or> int (length lv) \<le> v_start")
    case True
    with Inr assms show ?thesis by (subst fill_loop.simps) auto
  next
    case False
    define size where "size = int (length lv)"
    define d1 where "d1 = (v_start + 1) smod size"
    define d2 where "d2 = (v_start + 2) smod size"
    have "lv \<noteq> []" using assms by auto
    then have pos: "0 < size" "0 \<le> v_start" "v_start < size" using False by (simp_all add: size_def)
    have e1: "d1 = (v_start + 1) mod size" and e2: "d2 = (v_start + 2) mod size"
      unfolding d1_def d2_def using pos by (simp_all add: smod_nonneg)
    have r: "0 \<le> d1" "d1 < size" "0 \<le> d2" "d2 < size"
      unfolding e1 e2 using pos by simp_all
    have ne: "d1 \<noteq> d2"
    proof
      assume "d1 = d2"
      then have "(v_start + 1) mod size = (v_start + 1 + 1) mod size" by (simp add: e1 e2 add.assoc)
      then have "size dvd 1" using mod_eq_dvd_iff[of "v_start + 1" size "v_start + 1 + 1"] by simp
      with assms show False by (simp add: size_def)
    qed
    have inner: "fill_loop dis directed_edges numV (length lv) lv' Fc = Inl OutOfRange"
      if len: "length lv' = length lv - 2" for lv' Fc
    proof -
      have "search_start dis (length lv) lv' = Inl OutOfRange"
        using assms len by (intro search_start_stale) auto
      moreover have "lv' \<noteq> []" "\<not> length lv' \<le> 4" using len assms by auto
      ultimately show ?thesis by (subst fill_loop.simps) simp
    qed
    have A: "fill_loop dis directed_edges numV (length lv)
               (erase_at (erase_at lv (nat d1)) (nat d2)) Fc = Inl OutOfRange" if "d2 < d1" for Fc
      using that r by (intro inner length_erase_two) (auto simp: size_def)
    have B: "fill_loop dis directed_edges numV (length lv)
               (erase_at (erase_at lv (nat d2)) (nat d1)) Fc = Inl OutOfRange" if "\<not> d2 < d1" for Fc
      using that r ne by (intro inner length_erase_two) (auto simp: size_def)
    show ?thesis
      apply (subst fill_loop.simps)
      using Inr False \<open>lv \<noteq> []\<close> assms A B
      by (simp add: Let_def d1_def d2_def size_def)
  qed
qed

text \<open>
  Claim C8 at a boundary loop of seven vertices, whatever the positions and the
  directed edges are: the greedy triangulation does not reach its second quad within
  the bounds of \<open>loop_vertices\<close>.
\<close>

theorem fill_loop_seven_faults:
  "fill_loop dis directed_edges numV 7 [a, b, c, d, e, f, g] F_compact = Inl OutOfRange"
proof -
  have l: "length [a, b, c, d, e, f, g] = 7" by simp
  show ?thesis
    using fill_loop_long_faults[of "[a, b, c, d, e, f, g]" dis directed_edges numV F_compact]
    unfolding l by simp
qed


text \<open>Loops of four and of three vertices give one quad, up to the winding swap.\<close>

lemma fill_loop_four:
  "fill_loop dis directed_edges numV n [a, b, c, d] F_compact
     = Inr (F_compact @ [fix_winding directed_edges numV a b (a, b, c, d)])"
  by (subst fill_loop.simps) simp

lemma fill_loop_three:
  "fill_loop dis directed_edges numV n [a, b, c] F_compact
     = Inr (F_compact @ [fix_winding directed_edges numV a b (a, b, c, c)])"
  by (subst fill_loop.simps) simp

section \<open>Properties of the perturbation of the cut variables\<close>

lemma sdiv_smod_nonneg2: "0 \<le> i \<Longrightarrow> i sdiv 2 = i div (2::int)" "0 \<le> i \<Longrightarrow> i smod 2 = i mod (2::int)"
  by (simp_all add: signed_divide_int_def signed_modulo_int_def sgn_if)

lemma length_flat: "length (flat ed) = 2 * length ed"
  by (induction ed) (simp_all add: flat_def)

lemma flat_nth:
  "n < 2 * length ed \<Longrightarrow> flat ed ! n = (if n mod 2 = 0 then fst (ed ! (n div 2)) else snd (ed ! (n div 2)))"
proof (induction ed arbitrary: n)
  case Nil then show ?case by simp
next
  case (Cons v ed)
  show ?case
  proof (cases "n < 2")
    case True
    then have "n = 0 \<or> n = 1" by auto
    then show ?thesis by (auto simp: flat_def)
  next
    case False
    then obtain m where m: "n = m + 2" by (metis add.commute le_add_diff_inverse not_less)
    with Cons.prems have "m < 2 * length ed" by simp
    from Cons.IH[OF this] m show ?thesis by (simp add: flat_def)
  qed
qed

lemma flat_update:
  "n < 2 * length ed \<Longrightarrow>
   flat (ed[n div 2 := (if n mod 2 = 0 then (x, snd (ed ! (n div 2))) else (fst (ed ! (n div 2)), x))])
     = (flat ed)[n := x]"
proof (induction ed arbitrary: n)
  case Nil then show ?case by simp
next
  case (Cons v ed)
  show ?case
  proof (cases "n < 2")
    case True
    then have "n = 0 \<or> n = 1" by auto
    then show ?thesis by (auto simp: flat_def)
  next
    case False
    then obtain m where m: "n = m + 2" by (metis add.commute le_add_diff_inverse not_less)
    with Cons.prems have "m < 2 * length ed" by simp
    from Cons.IH[OF this] m show ?thesis
      by (cases "m mod 2 = 0") (simp_all add: flat_def)
  qed
qed

lemma diff_at_Inr:
  "diff_at ed i = Inr d \<longleftrightarrow> 0 \<le> i \<and> nat i < 2 * length ed \<and> d = flat ed ! nat i"
proof (cases "0 \<le> i")
  case False
  then have "i sdiv 2 < 0 \<or> (i smod 2 \<noteq> 0 \<and> i smod 2 \<noteq> 1)"
    by (auto simp: signed_divide_int_def signed_modulo_int_def sgn_if)
  with False show ?thesis
    by (auto simp: diff_at_def list_at_def vec2_at_def split: sum.splits if_splits)
next
  case True
  then obtain n where n: "i = int n" by (metis nat_0_le)
  have d: "int n div 2 = int (n div 2)" "int n mod 2 = int (n mod 2)" by (simp_all add: zdiv_int zmod_int)
  show ?thesis
    unfolding n diff_at_def list_at_def vec2_at_def
    using flat_nth[of n ed]
    by (auto simp: sdiv_smod_nonneg2 d split: sum.splits if_splits)
qed


lemma diff_add_Inr:
  assumes "0 \<le> i" and "nat i < 2 * length ed"
  shows "\<exists>ed'. diff_add ed i x = Inr ed' \<and> length ed' = length ed \<and>
               flat ed' = (flat ed)[nat i := flat ed ! nat i + x]"
proof -
  from assms obtain n where n: "i = int n" "n < 2 * length ed" by (metis nat_0_le nat_int)
  have d: "int n div 2 = int (n div 2)" "int n mod 2 = int (n mod 2)" by (simp_all add: zdiv_int zmod_int)
  have l: "n div 2 < length ed" using n(2) by auto
  show ?thesis
  proof (cases "n mod 2 = 0")
    case True
    have "diff_add ed i x = Inr (ed[n div 2 := (fst (ed ! (n div 2)) + x, snd (ed ! (n div 2)))])"
      unfolding n diff_add_def list_at_def list_put_def vec2_at_def vec2_put_def
      using l True by (simp add: sdiv_smod_nonneg2 d)
    moreover have "flat (ed[n div 2 := (fst (ed ! (n div 2)) + x, snd (ed ! (n div 2)))])
                   = (flat ed)[n := flat ed ! n + x]"
      using flat_update[OF n(2), of "flat ed ! n + x"] flat_nth[OF n(2)] True by simp
    ultimately show ?thesis using n by simp
  next
    case False
    then have m1: "n mod 2 = 1" by presburger
    have "diff_add ed i x = Inr (ed[n div 2 := (fst (ed ! (n div 2)), snd (ed ! (n div 2)) + x)])"
      unfolding n diff_add_def list_at_def list_put_def vec2_at_def vec2_put_def
      using l m1 by (simp add: sdiv_smod_nonneg2 d)
    moreover have "flat (ed[n div 2 := (fst (ed ! (n div 2)), snd (ed ! (n div 2)) + x)])
                   = (flat ed)[n := flat ed ! n + x]"
      using flat_update[OF n(2), of "flat ed ! n + x"] flat_nth[OF n(2)] m1 by simp
    ultimately show ?thesis using n by simp
  qed
qed

lemma variable_update_Inr:
  assumes "variable_update vars k i s = Inr vars'"
  shows "0 \<le> k \<and> nat k < length vars \<and> length vars' = length vars \<and>
         (\<forall>n<length vars. snd (vars' ! n) = snd (vars ! n) + (if n = nat k then s else 0))"
  using assms
  by (auto simp: variable_update_def list_at_def list_put_def nth_list_update split: if_splits)

lemma net_sum_update:
  assumes "variable_update vars k i s = Inr vars'"
  shows "net_sum vars' fl = net_sum vars fl + s * fl ! nat k"
proof -
  note u = variable_update_Inr[OF assms]
  have "net_sum vars' fl = (\<Sum>n<length vars. (snd (vars ! n) + (if n = nat k then s else 0)) * fl ! n)"
    unfolding net_sum_def using u by simp
  also have "\<dots> = (\<Sum>n<length vars. snd (vars ! n) * fl ! n + (if n = nat k then s * fl ! nat k else 0))"
    by (intro sum.cong refl) (simp add: algebra_simps)
  also have "\<dots> = net_sum vars fl + (\<Sum>n<length vars. if n = nat k then s * fl ! nat k else 0)"
    unfolding net_sum_def by (rule sum.distrib)
  also have "(\<Sum>n<length vars. if n = nat k then s * fl ! nat k else 0) = s * fl ! nat k"
    using u by simp
  finally show ?thesis .
qed

lemma constraint_step_sum:
  assumes "constraint_step ed ci cs n (vars, t) = Inr (vars', t')"
  shows "length vars' = length vars \<and> t' - net_sum vars' (flat ed) = t - net_sum vars (flat ed)"
proof -
  obtain i0 i1 i2 where ix: "ci ! n = (i0, i1, i2)" by (cases "ci ! n") auto
  from assms obtain s0 s1 s2 where sg: "list_at cs (int n) = Inr (s0, s1, s2)"
    by (auto simp: constraint_step_def Let_def split: sum.splits prod.splits)
  from assms ix sg obtain d1 d2 d3 v0 v1 where
    d: "diff_at ed i0 = Inr d1" "diff_at ed i1 = Inr d2" "diff_at ed i2 = Inr d3"
    and v: "variable_update vars i0 (int n) s0 = Inr v0" "variable_update v0 i1 (int n) s1 = Inr v1"
       "variable_update v1 i2 (int n) s2 = Inr vars'"
    and t: "t' = t + (s0 * d1 + s1 * d2 + s2 * d3)"
    by (auto simp: constraint_step_def Let_def split: sum.splits)
  have e: "d1 = flat ed ! nat i0" "d2 = flat ed ! nat i1" "d3 = flat ed ! nat i2"
    using d by (simp_all add: diff_at_Inr)
  have "net_sum vars' (flat ed) = net_sum vars (flat ed) + s0 * d1 + s1 * d2 + s2 * d3"
    using net_sum_update[OF v(1)] net_sum_update[OF v(2)] net_sum_update[OF v(3)] e by simp
  moreover have "length vars' = length vars"
    using variable_update_Inr[OF v(1)] variable_update_Inr[OF v(2)] variable_update_Inr[OF v(3)]
    by simp
  ultimately show ?thesis using t by simp
qed

lemma for_each_invariant:
  assumes "for_each body xs s = Inr s'" and "P s"
    and "\<And>x a b. P a \<Longrightarrow> body x a = Inr b \<Longrightarrow> P b"
  shows "P s'"
  using assms(1,2)
proof (induction xs arbitrary: s)
  case Nil then show ?case by simp
next
  case (Cons x xs)
  then show ?case using assms(3) by (auto split: sum.splits)
qed

lemma constraint_loop_sum:
  assumes "constraint_loop ed ci cs [] = Inr (vars, total_flow)"
  shows "length vars = 2 * length ed \<and> total_flow = net_sum vars (flat ed)"
proof -
  define P where "P = (\<lambda>st :: variable list \<times> int.
      length (fst st) = 2 * length ed \<and> snd st = net_sum (fst st) (flat ed))"
  have "P (vars, total_flow)"
  proof (rule for_each_invariant[OF assms[unfolded constraint_loop_def]])
    show "P (resize [] (length ed * 2) ((- 1, - 1), 0), 0)"
      by (simp add: P_def resize_def net_sum_def)
    show "P b" if "P a" "constraint_step ed ci cs x a = Inr b" for x a b
    proof -
      obtain va ta vb tb where ab: "a = (va, ta)" "b = (vb, tb)" by (cases a, cases b) auto
      from constraint_step_sum[OF that(2)[unfolded ab]] that(1) show ?thesis
        by (simp add: P_def ab)
    qed
  qed
  then show ?thesis by (simp add: P_def)
qed


lemma for_each_snoc:
  "for_each body (xs @ [x]) s = (case for_each body xs s of Inl e \<Rightarrow> Inl e | Inr s' \<Rightarrow> body x s')"
  by (induction xs arbitrary: s) (auto split: sum.splits)

lemma diff_at_nat: "n < 2 * length ed \<Longrightarrow> diff_at ed (int n) = Inr (flat ed ! n)"
  by (simp add: diff_at_Inr)

lemma cut_step_eq:
  assumes "n < 2 * length ed" and "length ev = length ed"
  shows "cut_step ed ev tf vars n (cuts, mv)
         = Inr ((if snd (vars ! n) \<noteq> 0 then insert (ev ! (n div 2)) cuts else cuts),
                mv @ candidates tf vars (flat ed) n)"
proof -
  have l: "list_at ev (int n sdiv 2) = Inr (ev ! (n div 2))"
    using assms by (simp add: list_at_def sdiv_smod_nonneg2 zdiv_int[symmetric] nat_div_distrib)
  show ?thesis
    unfolding cut_step_def Let_def l diff_at_nat[OF assms(1)] candidates_def
    by simp
qed

lemma cut_loop_eq:
  assumes "length vars = 2 * length ed" and "length ev = length ed"
  shows "n \<le> length vars \<Longrightarrow>
         for_each (cut_step ed ev tf vars) [0..<n] ({}, [])
         = Inr ({ev ! (m div 2) | m. m < n \<and> snd (vars ! m) \<noteq> 0},
                concat (map (candidates tf vars (flat ed)) [0..<n]))"
proof (induction n)
  case 0
  then show ?case by simp
next
  case (Suc n)
  then have n: "n < 2 * length ed" using assms(1) by simp
  have s: "{ev ! (m div 2) | m. m < Suc n \<and> snd (vars ! m) \<noteq> 0}
           = (if snd (vars ! n) \<noteq> 0 then insert (ev ! (n div 2)) {ev ! (m div 2) | m. m < n \<and> snd (vars ! m) \<noteq> 0}
              else {ev ! (m div 2) | m. m < n \<and> snd (vars ! m) \<noteq> 0})"
    by (auto simp: less_Suc_eq)
  show ?case
    using Suc by (simp add: for_each_snoc cut_step_eq[OF n assms(2)] s del: upt_Suc add: upt_Suc_append)
qed


lemma length_candidates_sum:
  "int (length (concat (map (candidates tf vars fl) [0..<N])))
   = (\<Sum>n<N. int (length (candidates tf vars fl n)))"
proof -
  have "length (concat (map (candidates tf vars fl) [0..<N]))
        = sum_list (map (\<lambda>n. length (candidates tf vars fl n)) [0..<N])"
    by (simp add: length_concat comp_def)
  also have "\<dots> = (\<Sum>n<N. length (candidates tf vars fl n))"
    by (simp add: interv_sum_list_conv_sum_set_nat atLeast0LessThan)
  finally show ?thesis by simp
qed

lemma candidate_bound_pos:
  assumes "0 < tf" and "in_clamp d" and "\<bar>c\<bar> \<le> 2" and "snd (vars ! n) = c" and "fl ! n = d"
  shows "c * d \<le> 2 * int (length (candidates tf vars fl n))"
  using assms unfolding in_clamp_def candidates_def Let_def
  by (elim disjE) (auto split: if_splits)

lemma candidate_bound_neg:
  assumes "tf < 0" and "in_clamp d" and "\<bar>c\<bar> \<le> 2" and "snd (vars ! n) = c" and "fl ! n = d"
  shows "- (c * d) \<le> 2 * int (length (candidates tf vars fl n))"
  using assms unfolding in_clamp_def candidates_def Let_def
  by (elim disjE) (auto split: if_splits)

lemma enough_candidates:
  assumes len: "length fl = length vars"
    and clamp: "\<forall>d\<in>set fl. in_clamp d"
    and ns: "\<forall>v\<in>set vars. \<bar>snd v\<bar> \<le> 2"
    and tf: "tf = net_sum vars fl"
  shows "\<bar>tf\<bar> \<le> 2 * int (length (concat (map (candidates tf vars fl) [0..<length vars])))"
proof -
  let ?N = "length vars"
  let ?L = "\<lambda>n. int (length (candidates tf vars fl n))"
  have pt: "in_clamp (fl ! n)" "\<bar>snd (vars ! n)\<bar> \<le> 2" if "n < ?N" for n
    using that clamp ns len by (auto simp: all_set_conv_all_nth)
  have "\<bar>tf\<bar> \<le> (\<Sum>n<?N. 2 * ?L n)"
  proof (cases "0 < tf")
    case True
    have "tf = (\<Sum>n<?N. snd (vars ! n) * fl ! n)" by (simp add: tf net_sum_def)
    also have "\<dots> \<le> (\<Sum>n<?N. 2 * ?L n)"
      by (intro sum_mono candidate_bound_pos[OF True]) (use pt in auto)
    finally show ?thesis using True by simp
  next
    case False
    show ?thesis
    proof (cases "tf < 0")
      case True
      have "- tf = (\<Sum>n<?N. - (snd (vars ! n) * fl ! n))"
        by (simp add: tf net_sum_def sum_negf)
      also have "\<dots> \<le> (\<Sum>n<?N. 2 * ?L n)"
        by (intro sum_mono candidate_bound_neg[OF True]) (use pt in auto)
      finally show ?thesis using True by simp
    next
      case F2: False
      with False have "tf = 0" by simp
      then show ?thesis by (simp add: sum_nonneg)
    qed
  qed
  also have "\<dots> = 2 * (\<Sum>n<?N. ?L n)" by (simp add: sum_distrib_left)
  finally show ?thesis by (simp add: length_candidates_sum)
qed


lemma candidates_mem:
  assumes "(i, x) \<in> set (candidates tf vars fl n)"
  shows "i = int n \<and> snd (vars ! n) \<noteq> 0 \<and> (x = 1 \<or> x = - 1) \<and>
         (in_clamp (fl ! n) \<longrightarrow> in_clamp (fl ! n + x)) \<and>
         (0 < tf \<longrightarrow> x = - sgn (snd (vars ! n)))"
  using assms unfolding candidates_def Let_def in_clamp_def
  by (auto split: if_splits)

lemma candidates_all_distinct:
  "distinct (map fst (concat (map (candidates tf vars fl) [0..<n]))) \<and>
   (\<forall>p\<in>set (concat (map (candidates tf vars fl) [0..<n])). fst p < int n)"
proof (induction n)
  case 0 then show ?case by simp
next
  case (Suc n)
  have d: "distinct (map fst (candidates tf vars fl n))"
    unfolding candidates_def Let_def by auto
  have f: "\<forall>p\<in>set (candidates tf vars fl n). fst p = int n"
    using candidates_mem[of _ _ tf vars fl n] by auto
  show ?case using Suc d f by (simp del: upt_Suc add: upt_Suc_append) fastforce
qed

lemma candidates_all_mem:
  assumes "(i, x) \<in> set (concat (map (candidates tf vars fl) [0..<N]))"
  shows "0 \<le> i \<and> nat i < N \<and> snd (vars ! nat i) \<noteq> 0 \<and> (x = 1 \<or> x = - 1) \<and>
         (in_clamp (fl ! nat i) \<longrightarrow> in_clamp (fl ! nat i + x)) \<and>
         (0 < tf \<longrightarrow> x = - sgn (snd (vars ! nat i)))"
proof -
  from assms obtain n where n: "n < N" "(i, x) \<in> set (candidates tf vars fl n)" by auto
  from candidates_mem[OF n(2)] n(1) show ?thesis by auto
qed

lemma apply_loop:
  assumes k: "k \<le> length sh"
    and dist: "distinct (map fst sh)"
    and rng: "\<forall>p\<in>set sh. 0 \<le> fst p \<and> nat (fst p) < 2 * length ed"
  shows "\<exists>ed'. for_each (apply_step sh) [0..<k] ed = Inr ed' \<and> length ed' = length ed \<and>
           (\<forall>p\<in>set (take k sh). flat ed' ! nat (fst p) = flat ed ! nat (fst p) + snd p) \<and>
           (\<forall>n<2 * length ed. int n \<notin> fst ` set (take k sh) \<longrightarrow> flat ed' ! n = flat ed ! n)"
  using k
proof (induction k)
  case 0
  then show ?case by simp
next
  case (Suc k)
  then obtain ed1 where ed1: "for_each (apply_step sh) [0..<k] ed = Inr ed1" "length ed1 = length ed"
    "\<forall>p\<in>set (take k sh). flat ed1 ! nat (fst p) = flat ed ! nat (fst p) + snd p"
    "\<forall>n<2 * length ed. int n \<notin> fst ` set (take k sh) \<longrightarrow> flat ed1 ! n = flat ed ! n"
    by auto
  define i where "i = fst (sh ! k)"
  define x where "x = snd (sh ! k)"
  have kl: "k < length sh" using Suc.prems by simp
  have tk: "take (Suc k) sh = take k sh @ [sh ! k]" using kl by (simp add: take_Suc_conv_app_nth)
  have ir: "0 \<le> i" "nat i < 2 * length ed" using rng kl by (auto simp: i_def)
  have fresh: "i \<notin> fst ` set (take k sh)"
  proof
    assume "i \<in> fst ` set (take k sh)"
    then obtain m where m: "m < k" "fst (sh ! m) = i"
      using kl by (auto simp: in_set_conv_nth)
    with dist kl have "m = k"
      by (auto simp: i_def distinct_conv_nth dest!: spec[of _ m])
    with m show False by simp
  qed
  from diff_add_Inr[of i ed1 x] ir ed1(2) obtain ed2 where
    ed2: "diff_add ed1 i x = Inr ed2" "length ed2 = length ed"
      "flat ed2 = (flat ed1)[nat i := flat ed1 ! nat i + x]" by auto
  have ap: "apply_step sh k ed1 = Inr ed2"
    using kl ed2(1) by (simp add: apply_step_def list_at_def i_def x_def)
  have res: "for_each (apply_step sh) [0..<Suc k] ed = Inr ed2"
    using ed1(1) ap by (simp del: upt_Suc add: upt_Suc_append for_each_snoc)
  have here: "flat ed1 ! nat i = flat ed ! nat i"
    using ed1(4) ir fresh by (auto dest!: spec[of _ "nat i"])
  have il: "nat i < length (flat ed1)" using ir ed1(2) by (simp add: length_flat)
  have a: "\<forall>p\<in>set (take (Suc k) sh). flat ed2 ! nat (fst p) = flat ed ! nat (fst p) + snd p"
  proof
    fix p assume p: "p \<in> set (take (Suc k) sh)"
    show "flat ed2 ! nat (fst p) = flat ed ! nat (fst p) + snd p"
    proof (cases "p \<in> set (take k sh)")
      case True
      then have "fst p \<noteq> i" using fresh by auto
      moreover have "0 \<le> fst p" using rng True by (meson in_set_takeD)
      ultimately have "nat (fst p) \<noteq> nat i" using ir(1) by simp
      then show ?thesis using ed1(3) True by (simp add: ed2(3))
    next
      case False
      with p have "p = sh ! k" by (simp add: tk)
      then show ?thesis using here il by (simp add: ed2(3) i_def x_def)
    qed
  qed
  have b: "\<forall>n<2 * length ed. int n \<notin> fst ` set (take (Suc k) sh) \<longrightarrow> flat ed2 ! n = flat ed ! n"
  proof (intro allI impI)
    fix n assume n: "n < 2 * length ed" "int n \<notin> fst ` set (take (Suc k) sh)"
    then have "int n \<noteq> i" "int n \<notin> fst ` set (take k sh)" by (auto simp: tk i_def)
    then have "n \<noteq> nat i" "flat ed1 ! n = flat ed ! n" using ed1(4) n(1) ir(1) by auto
    then show "flat ed2 ! n = flat ed ! n" by (simp add: ed2(3))
  qed
  from res ed2(2) a b show ?case by blast
qed


text \<open>
  Claim C6. Take the state after branch selection: the constraints index valid
  variables (the loop over them returns \<open>vars\<close> and \<open>total_flow\<close>), \<open>edge_diff\<close> is
  clamped, the residual recomputed from the constraints is the selected
  \<open>target_flow\<close>, every variable has a net sign of magnitude at most 2 (an edge has at
  most two faces), and the shuffle permutes its argument. Then the code returns; every
  variable with a nonzero net sign has its edge in \<open>cuts\<close>; exactly
  \<open>abs(target_flow) / 2\<close> distinct variables with a nonzero net sign are changed, each
  by +1 or -1 on its one component, each stays in the clamp, for a positive
  \<open>target_flow\<close> the change has the sign opposite to the net sign, and no other
  component of \<open>edge_diff\<close> changes.
\<close>

theorem perturbation_of_cut_variables:
  assumes loop: "constraint_loop ed constraints_index constraints_sign [] = Inr (vars, total_flow)"
    and clamp: "\<forall>d\<in>set (flat ed). in_clamp d"
    and flow: "total_flow = target_flow"
    and ns: "\<forall>v\<in>set vars. \<bar>snd v\<bar> \<le> 2"
    and sh: "\<forall>xs. mset (shuffle xs) = mset xs"
    and ev: "length ev = length ed"
  shows "\<exists>r. perturb_cut_variables shuffle constraints_index constraints_sign ev target_flow [] ed = Inr r \<and>
           p_variables r = vars \<and> length (p_edge_diff r) = length ed \<and>
           p_cuts r = {ev ! (n div 2) | n. n < length vars \<and> snd (vars ! n) \<noteq> 0} \<and>
           (let sel = take (nat (\<bar>target_flow\<bar> div 2)) (p_modified r) in
              length sel = nat (\<bar>target_flow\<bar> div 2) \<and> distinct (map fst sel) \<and>
              (\<forall>p\<in>set sel. 0 \<le> fst p \<and> nat (fst p) < length vars \<and>
                   snd (vars ! nat (fst p)) \<noteq> 0 \<and> (snd p = 1 \<or> snd p = - 1) \<and>
                   flat (p_edge_diff r) ! nat (fst p) = flat ed ! nat (fst p) + snd p \<and>
                   in_clamp (flat (p_edge_diff r) ! nat (fst p)) \<and>
                   (0 < target_flow \<longrightarrow> snd p = - sgn (snd (vars ! nat (fst p))))) \<and>
              (\<forall>n<length vars. int n \<notin> fst ` set sel \<longrightarrow> flat (p_edge_diff r) ! n = flat ed ! n))"
proof -
  let ?fl = "flat ed"
  define mv where "mv = concat (map (candidates target_flow vars ?fl) [0..<length vars])"
  define k where "k = nat (\<bar>target_flow\<bar> div 2)"
  note s = constraint_loop_sum[OF loop]
  have lv: "length vars = 2 * length ed" and tf: "target_flow = net_sum vars ?fl"
    using s flow by simp_all
  have cut: "for_each (cut_step ed ev target_flow vars) [0..<length vars] ({}, [])
             = Inr ({ev ! (m div 2) | m. m < length vars \<and> snd (vars ! m) \<noteq> 0}, mv)"
    unfolding mv_def by (rule cut_loop_eq[OF lv ev]) simp
  have "\<bar>target_flow\<bar> \<le> 2 * int (length mv)"
    unfolding mv_def using lv clamp ns tf by (intro enough_candidates) (simp_all add: length_flat)
  then have kl: "k \<le> length mv" unfolding k_def by linarith
  have ks: "nat (\<bar>target_flow\<bar> sdiv 2) = k"
    unfolding k_def by (simp add: sdiv_smod_nonneg2)
  define sh' where "sh' = shuffle mv"
  have ms: "mset sh' = mset mv" using sh by (simp add: sh'_def)
  have len: "length sh' = length mv" using ms by (rule mset_eq_length)
  have set: "set sh' = set mv" using ms by (rule mset_eq_setD)
  have "mset (map fst sh') = mset (map fst mv)" using ms by (metis mset_map)
  moreover have "distinct (map fst mv)" unfolding mv_def using candidates_all_distinct by blast
  ultimately have dist: "distinct (map fst sh')" by (metis mset_eq_imp_distinct_iff)
  have mem: "0 \<le> fst p \<and> nat (fst p) < length vars \<and> snd (vars ! nat (fst p)) \<noteq> 0 \<and>
             (snd p = 1 \<or> snd p = - 1) \<and> in_clamp (?fl ! nat (fst p) + snd p) \<and>
             (0 < target_flow \<longrightarrow> snd p = - sgn (snd (vars ! nat (fst p))))"
    if "p \<in> set sh'" for p
  proof -
    from that have "(fst p, snd p) \<in> set (concat (map (candidates target_flow vars ?fl) [0..<length vars]))"
      by (simp add: set mv_def)
    note c = candidates_all_mem[OF this]
    moreover have "in_clamp (?fl ! nat (fst p))"
      using c clamp lv by (simp add: length_flat)
    ultimately show ?thesis by simp
  qed
  have rng: "\<forall>p\<in>set sh'. 0 \<le> fst p \<and> nat (fst p) < 2 * length ed"
    using mem lv by auto
  from apply_loop[OF _ dist rng, of k] kl len obtain ed' where
    ed': "for_each (apply_step sh') [0..<k] ed = Inr ed'" "length ed' = length ed"
      "\<forall>p\<in>set (take k sh'). flat ed' ! nat (fst p) = ?fl ! nat (fst p) + snd p"
      "\<forall>n<2 * length ed. int n \<notin> fst ` set (take k sh') \<longrightarrow> flat ed' ! n = ?fl ! n"
    by auto
  define r where "r = \<lparr>p_edge_diff = ed', p_cuts = {ev ! (m div 2) | m. m < length vars \<and> snd (vars ! m) \<noteq> 0},
                        p_variables = vars, p_total_flow = total_flow, p_modified = sh'\<rparr>"
  have run: "perturb_cut_variables shuffle constraints_index constraints_sign ev target_flow [] ed = Inr r"
    unfolding perturb_cut_variables_def loop using cut ed'(1)
    by (simp add: ks sh'_def r_def)
  have sel: "length (take k sh') = k" using kl len by simp
  have dsel: "distinct (map fst (take k sh'))"
    using dist by (simp add: take_map[symmetric] distinct_take)
  have each: "0 \<le> fst p \<and> nat (fst p) < length vars \<and>
                   snd (vars ! nat (fst p)) \<noteq> 0 \<and> (snd p = 1 \<or> snd p = - 1) \<and>
                   flat ed' ! nat (fst p) = ?fl ! nat (fst p) + snd p \<and>
                   in_clamp (flat ed' ! nat (fst p)) \<and>
                   (0 < target_flow \<longrightarrow> snd p = - sgn (snd (vars ! nat (fst p))))"
    if "p \<in> set (take k sh')" for p
  proof -
    have "p \<in> set sh'" using that by (rule in_set_takeD)
    from mem[OF this] ed'(3) that show ?thesis by simp
  qed
  have r1: "p_variables r = vars" "p_edge_diff r = ed'" "p_modified r = sh'"
    "p_cuts r = {ev ! (n div 2) | n. n < length vars \<and> snd (vars ! n) \<noteq> 0}"
    by (simp_all add: r_def)
  have rest: "\<forall>n<length vars. int n \<notin> fst ` set (take k sh') \<longrightarrow> flat ed' ! n = ?fl ! n"
    using ed'(4) lv by simp
  show ?thesis
    unfolding Let_def k_def[symmetric]
  proof (intro exI[of _ r] conjI)
    show "\<forall>p\<in>set (take k (p_modified r)).
       0 \<le> fst p \<and> nat (fst p) < length vars \<and> snd (vars ! nat (fst p)) \<noteq> 0 \<and>
       (snd p = 1 \<or> snd p = - 1) \<and>
       flat (p_edge_diff r) ! nat (fst p) = flat ed ! nat (fst p) + snd p \<and>
       in_clamp (flat (p_edge_diff r) ! nat (fst p)) \<and>
       (0 < target_flow \<longrightarrow> snd p = - sgn (snd (vars ! nat (fst p))))"
      unfolding r1 using each by blast
  qed (use run sel dsel ed'(2) rest in \<open>simp_all only: r1\<close>)
qed


lemma demo_constraint_loop: "constraint_loop demo_ed demo_index demo_sign [] = Inr (demo_vars, 2)"
  by (simp add: constraint_loop_def constraint_step_def variable_update_def diff_at_def
        list_at_def list_put_def vec2_at_def resize_def upt_rec Let_def
        signed_divide_int_def signed_modulo_int_def eval_nat_numeral
        demo_ed_def demo_index_def demo_sign_def demo_vars_def)

theorem perturbation_of_cut_variables_witness:
  "constraint_loop demo_ed demo_index demo_sign [] = Inr (demo_vars, 2) \<and>
   list_all in_clamp (flat demo_ed) \<and>
   list_all (\<lambda>v. \<bar>snd v\<bar> \<le> 2) demo_vars \<and>
   (\<forall>xs :: (int \<times> int) list. mset (id xs) = mset xs) \<and>
   length demo_ev = length demo_ed \<and>
   (\<exists>r. perturb_cut_variables id demo_index demo_sign demo_ev 2 [] demo_ed = Inr r \<and>
        p_variables r = demo_vars \<and> length (p_edge_diff r) = length demo_ed \<and>
        p_cuts r = {demo_ev ! (n div 2) | n. n < length demo_vars \<and> snd (demo_vars ! n) \<noteq> 0} \<and>
        (let sel = take (nat (\<bar>2\<bar> div 2)) (p_modified r) in
           length sel = nat (\<bar>2\<bar> div 2) \<and> distinct (map fst sel) \<and>
           (\<forall>p\<in>set sel. 0 \<le> fst p \<and> nat (fst p) < length demo_vars \<and>
                snd (demo_vars ! nat (fst p)) \<noteq> 0 \<and> (snd p = 1 \<or> snd p = - 1) \<and>
                flat (p_edge_diff r) ! nat (fst p) = flat demo_ed ! nat (fst p) + snd p \<and>
                in_clamp (flat (p_edge_diff r) ! nat (fst p)) \<and>
                (0 < (2::int) \<longrightarrow> snd p = - sgn (snd (demo_vars ! nat (fst p))))) \<and>
           (\<forall>n<length demo_vars. int n \<notin> fst ` set sel \<longrightarrow>
                flat (p_edge_diff r) ! n = flat demo_ed ! n)))"
proof -
  have c: "list_all in_clamp (flat demo_ed)"
    by (simp add: flat_def demo_ed_def in_clamp_def)
  have n: "list_all (\<lambda>v. \<bar>snd v\<bar> \<le> 2) demo_vars"
    by (simp add: demo_vars_def)
  have s: "\<forall>xs :: (int \<times> int) list. mset (id xs) = mset xs" by simp
  have l: "length demo_ev = length demo_ed" by (simp add: demo_ev_def demo_ed_def)
  note t = perturbation_of_cut_variables[OF demo_constraint_loop c[unfolded list_all_iff] refl
             n[unfolded list_all_iff] s l]
  show ?thesis by (rule conjI[OF demo_constraint_loop conjI[OF c conjI[OF n conjI[OF s conjI[OF l t]]]]])
qed

section \<open>What collapse leaves alone\<close>

text \<open>
  \<open>collapse\<close> rewires \<open>parent_edge\<close>, \<open>edge_to_faces\<close>, \<open>vertices_to_edges\<close> and
  \<open>tree\<close>; no statement of it assigns to \<open>edge_diff\<close> or to \<open>edge_len\<close>.
\<close>

lemma keeps_diff_refl [simp]: "keeps_diff s s"
  by (simp add: keeps_diff_def)


lemma only_parents_keeps_diff: "only_parents s s' \<Longrightarrow> keeps_diff s s'"
  using only_parents_fields[of s s'] by (simp add: keeps_diff_def)








lemma root_diff_keeps: "root_diff s f j = Inr (d, s') \<Longrightarrow> keeps_diff s s'"
  by (rule only_parents_keeps_diff[OF root_diff_only_parents])















section \<open>The range of the edge diffs under CheckMove\<close>
































end

